theory Spec2Isabelle
  imports Main "HOL-Library.AList" "HOL-Library.Sublist" "HOL-Library.Monad_Syntax"
begin

chapter \<open>The model\<close>

section \<open>Protocol frames (types/protocol.ts)\<close>

text \<open>
  The JavaScript values a frame can hold. Objects keep their properties in creation
  order, as \<open>JSON.stringify\<close> sees them. Numbers are the integers; the frame schemas
  have no numeric field, so a number can only occur inside an opaque payload
  (\<open>responseItem\<close>, \<open>applyPatch\<close>, \<open>details\<close>, typed \<open>any\<close> and \<open>unknown\<close>). Such a
  payload can also hold \<open>undefined\<close> (and functions and symbols, which
  \<open>JSON.stringify\<close> treats like \<open>undefined\<close>).
\<close>

datatype json =
    JUndefined
  | JNull
  | JBool bool
  | JNum int
  | JStr string
  | JArr "json list"
  | JObj "(string \<times> json) list"

datatype Decision = Allow | Deny

datatype ApprovalPolicy = Suggest | AutoEdit | FullAuto

text \<open>\<open>configOverrides\<close>: \<open>model\<close>, \<open>approvalPolicy\<close>, both optional.\<close>

datatype ConfigOverrides = ConfigOverrides "string option" "ApprovalPolicy option"

text \<open>
  The client frames. Every constructor lists the fields of its schema in the order of the
  schema's shape: the \<open>id\<close> of \<open>BaseFrameSchema\<close> first, then the fields of the
  extension (the \<open>type\<close> literal is the constructor). An optional field is an \<open>option\<close>.
  \<^item> \<open>UserMessage id sessionId content imagePaths configOverrides\<close>
  \<^item> \<open>Approve id sessionId commandId decision explanation\<close>
  \<^item> \<open>Cancel id sessionId\<close>
\<close>

datatype ClientFrame =
    UserMessage "string option" "string option" string "string list option"
      "ConfigOverrides option"
  | Approve "string option" string string Decision "string option"
  | Cancel "string option" string

text \<open>
  The server frames, in the same convention.
  \<^item> \<open>Item id responseItem\<close> (\<open>z.any()\<close> also accepts a missing property)
  \<^item> \<open>CommandPrompt id commandId command applyPatch explanation\<close>
  \<^item> \<open>Status id message details\<close>
  \<^item> \<open>Error id message code retryable details\<close>
  \<^item> \<open>Heartbeat id timestamp\<close>
  \<^item> \<open>Terminate id reason details\<close>
\<close>

datatype ServerFrame =
    Item "string option" "json option"
  | CommandPrompt "string option" string "string list" "json option" "string option"
  | Status "string option" string "(string \<times> json) list option"
  | Error "string option" string "string option" "bool option"
      "(string \<times> json) list option"
  | Heartbeat "string option" string
  | Terminate "string option" string "(string \<times> json) list option"

section \<open>JSON text (the built-ins JSON.stringify and JSON.parse)\<close>

definition hex_digit :: "nat \<Rightarrow> char" where
  "hex_digit n = (if n < 10 then char_of (48 + n) else char_of (87 + n))"

text \<open>\<open>QuoteJSONString\<close>: how \<open>JSON.stringify\<close> writes one character of a string.\<close>

definition escape_char :: "char \<Rightarrow> string" where
  "escape_char c =
     (if c = CHR 0x22 then [CHR 0x5C, CHR 0x22]
      else if c = CHR 0x5C then [CHR 0x5C, CHR 0x5C]
      else if c = CHR 0x08 then [CHR 0x5C, CHR ''b'']
      else if c = CHR 0x0C then [CHR 0x5C, CHR ''f'']
      else if c = CHR 0x0A then [CHR 0x5C, CHR ''n'']
      else if c = CHR 0x0D then [CHR 0x5C, CHR ''r'']
      else if c = CHR 0x09 then [CHR 0x5C, CHR ''t'']
      else if (of_char c :: nat) < 32
        then [CHR 0x5C, CHR ''u'', CHR ''0'', CHR ''0'',
              hex_digit (of_char c div 16), hex_digit (of_char c mod 16)]
      else [c])"

definition quote_string :: "string \<Rightarrow> string" where
  "quote_string s = [CHR 0x22] @ concat (map escape_char s) @ [CHR 0x22]"

fun digits :: "nat \<Rightarrow> string" where
  "digits n = (if n < 10 then [char_of (48 + n)] else digits (n div 10) @ [char_of (48 + n mod 10)])"

definition number_string :: "int \<Rightarrow> string" where
  "number_string i = (if i < 0 then CHR ''-'' # digits (nat (- i)) else digits (nat i))"

fun separated :: "string \<Rightarrow> string list \<Rightarrow> string" where
  "separated sep [] = []"
| "separated sep [x] = x"
| "separated sep (x # y # ys) = x @ sep @ separated sep (y # ys)"

text \<open>
  \<open>JSON.stringify\<close> of a value inside a frame object: no white space, an \<open>undefined\<close>
  element of an array written as \<open>null\<close>, a property whose value is \<open>undefined\<close> left
  out. (The encoders call it on frame objects only.)
\<close>

fun JSON_stringify :: "json \<Rightarrow> string" where
  "JSON_stringify JUndefined = ''null''"
| "JSON_stringify JNull = ''null''"
| "JSON_stringify (JBool b) = (if b then ''true'' else ''false'')"
| "JSON_stringify (JNum i) = number_string i"
| "JSON_stringify (JStr s) = quote_string s"
| "JSON_stringify (JArr vs) = ''['' @ separated '','' (map JSON_stringify vs) @ '']''"
| "JSON_stringify (JObj kvs) =
     ''{'' @ separated '',''
              (map (\<lambda>kv. quote_string (fst kv) @ '':'' @ JSON_stringify (snd kv))
                 (filter (\<lambda>kv. snd kv \<noteq> JUndefined) kvs))
     @ ''}''"

definition is_ws :: "char \<Rightarrow> bool" where
  "is_ws c \<longleftrightarrow> c = CHR 0x20 \<or> c = CHR 0x09 \<or> c = CHR 0x0A \<or> c = CHR 0x0D"

definition skip_ws :: "string \<Rightarrow> string" where
  "skip_ws s = dropWhile is_ws s"

definition is_digit :: "char \<Rightarrow> bool" where
  "is_digit c \<longleftrightarrow> 48 \<le> (of_char c :: nat) \<and> (of_char c :: nat) \<le> 57"


definition hex_value :: "char \<Rightarrow> nat option" where
  "hex_value c =
     (let n = (of_char c :: nat)
      in if 48 \<le> n \<and> n \<le> 57 then Some (n - 48)
         else if 97 \<le> n \<and> n \<le> 102 then Some (n - 87)
         else if 65 \<le> n \<and> n \<le> 70 then Some (n - 55)
         else None)"

text \<open>
  The code unit of a \<open>\uXXXX\<close> escape. A \<open>string\<close> holds code units below 256; an escape
  for a higher one is outside the model (\<open>None\<close>).
\<close>

definition unicode_escape :: "char \<Rightarrow> char \<Rightarrow> char \<Rightarrow> char \<Rightarrow> char option" where
  "unicode_escape a b c d =
     (case (hex_value a, hex_value b, hex_value c, hex_value d) of
        (Some x, Some y, Some z, Some w) \<Rightarrow>
          (if x = 0 \<and> y = 0 then Some (char_of (16 * z + w)) else None)
      | _ \<Rightarrow> None)"

definition simple_escape :: "char \<Rightarrow> char option" where
  "simple_escape e =
     (if e = CHR 0x22 then Some (CHR 0x22)
      else if e = CHR 0x5C then Some (CHR 0x5C)
      else if e = CHR ''/'' then Some (CHR ''/'')
      else if e = CHR ''b'' then Some (CHR 0x08)
      else if e = CHR ''f'' then Some (CHR 0x0C)
      else if e = CHR ''n'' then Some (CHR 0x0A)
      else if e = CHR ''r'' then Some (CHR 0x0D)
      else if e = CHR ''t'' then Some (CHR 0x09)
      else None)"

text \<open>
  The characters of a string after its opening quote, up to the closing quote: the
  string's value and the text after it.
\<close>

fun parse_chars :: "string \<Rightarrow> (string \<times> string) option" where
  "parse_chars [] = None"
| "parse_chars (c # cs) =
     (if c = CHR 0x22 then Some ([], cs)
      else if c = CHR 0x5C then
        (case cs of
           [] \<Rightarrow> None
         | e # es \<Rightarrow>
             if e = CHR ''u'' then
               (case es of
                  a # b # c' # d # rest \<Rightarrow>
                    (case unicode_escape a b c' d of
                       None \<Rightarrow> None
                     | Some u \<Rightarrow> map_option (apfst ((#) u)) (parse_chars rest))
                | _ \<Rightarrow> None)
             else
               (case simple_escape e of
                  None \<Rightarrow> None
                | Some u \<Rightarrow> map_option (apfst ((#) u)) (parse_chars es)))
      else if (of_char c :: nat) < 32 then None
      else map_option (apfst ((#) c)) (parse_chars cs))"

definition digits_value :: "string \<Rightarrow> nat" where
  "digits_value ds = foldl (\<lambda>a c. 10 * a + (of_char c - 48)) 0 ds"

text \<open>
  A number: an optional minus sign and the digits of an integer without a leading zero.
  A fraction or an exponent is outside the model (\<open>None\<close>).
\<close>

definition parse_digits :: "string \<Rightarrow> (nat \<times> string) option" where
  "parse_digits s =
     (let ds = takeWhile is_digit s; rest = dropWhile is_digit s
      in if ds = [] \<or> (length ds > 1 \<and> hd ds = CHR ''0'') then None
         else if rest \<noteq> [] \<and> (hd rest = CHR ''.'' \<or> hd rest = CHR ''e'' \<or> hd rest = CHR ''E'')
           then None
         else Some (digits_value ds, rest))"

definition parse_number :: "string \<Rightarrow> (json \<times> string) option" where
  "parse_number s =
     (case s of
        [] \<Rightarrow> None
      | c # cs \<Rightarrow>
          if c = CHR ''-'' then map_option (apfst (\<lambda>n. JNum (- int n))) (parse_digits cs)
          else map_option (apfst (\<lambda>n. JNum (int n))) (parse_digits s))"

definition parse_literal :: "string \<Rightarrow> json \<Rightarrow> string \<Rightarrow> (json \<times> string) option" where
  "parse_literal lit v s = (if take (length lit) s = lit then Some (v, drop (length lit) s) else None)"

text \<open>
  A JavaScript object from the members of an object literal, in the order they were read:
  a repeated key keeps its first place and takes the last value.
\<close>

definition object_of :: "(string \<times> json) list \<Rightarrow> json" where
  "object_of members = JObj (fold (\<lambda>kv. AList.update (fst kv) (snd kv)) members [])"

text \<open>
  The recursive descent, with fuel for the nesting: \<open>parse_value\<close> reads one value,
  \<open>parse_elements\<close> the elements of a non-empty array up to its \<open>]\<close>, \<open>parse_members\<close>
  the members of a non-empty object up to its \<open>}\<close>.
\<close>

fun parse_value :: "nat \<Rightarrow> string \<Rightarrow> (json \<times> string) option"
  and parse_elements :: "nat \<Rightarrow> string \<Rightarrow> (json list \<times> string) option"
  and parse_members :: "nat \<Rightarrow> string \<Rightarrow> ((string \<times> json) list \<times> string) option"
where
  "parse_value 0 s = None"
| "parse_value (Suc n) s =
     (case skip_ws s of
        [] \<Rightarrow> None
      | c # cs \<Rightarrow>
          if c = CHR ''n'' then parse_literal ''null'' JNull (c # cs)
          else if c = CHR ''t'' then parse_literal ''true'' (JBool True) (c # cs)
          else if c = CHR ''f'' then parse_literal ''false'' (JBool False) (c # cs)
          else if c = CHR 0x22 then map_option (apfst JStr) (parse_chars cs)
          else if c = CHR ''['' then
            (case skip_ws cs of
               [] \<Rightarrow> None
             | d # ds \<Rightarrow>
                 if d = CHR '']'' then Some (JArr [], ds)
                 else map_option (apfst JArr) (parse_elements n (d # ds)))
          else if c = CHR ''{'' then
            (case skip_ws cs of
               [] \<Rightarrow> None
             | d # ds \<Rightarrow>
                 if d = CHR ''}'' then Some (JObj [], ds)
                 else map_option (apfst object_of) (parse_members n (d # ds)))
          else parse_number (c # cs))"
| "parse_elements 0 s = None"
| "parse_elements (Suc n) s =
     (case parse_value n s of
        None \<Rightarrow> None
      | Some (v, r) \<Rightarrow>
          (case skip_ws r of
             [] \<Rightarrow> None
           | c # cs \<Rightarrow>
               if c = CHR '','' then map_option (apfst ((#) v)) (parse_elements n cs)
               else if c = CHR '']'' then Some ([v], cs)
               else None))"
| "parse_members 0 s = None"
| "parse_members (Suc n) s =
     (case skip_ws s of
        [] \<Rightarrow> None
      | q # qs \<Rightarrow>
          if q \<noteq> CHR 0x22 then None
          else
            (case parse_chars qs of
               None \<Rightarrow> None
             | Some (k, r) \<Rightarrow>
                 (case skip_ws r of
                    [] \<Rightarrow> None
                  | c # cs \<Rightarrow>
                      if c \<noteq> CHR '':'' then None
                      else
                        (case parse_value n cs of
                           None \<Rightarrow> None
                         | Some (v, r') \<Rightarrow>
                             (case skip_ws r' of
                                [] \<Rightarrow> None
                              | d # ds \<Rightarrow>
                                  if d = CHR '','' then
                                    map_option (apfst ((#) (k, v))) (parse_members n ds)
                                  else if d = CHR ''}'' then Some ([(k, v)], ds)
                                  else None)))))"

text \<open>
  \<open>JSON.parse\<close>: one value, nothing but white space after it; \<open>None\<close> is the
  \<open>SyntaxError\<close>. Two levels of the descent read at least one character, so the fuel
  is enough for every text.
\<close>

definition JSON_parse :: "string \<Rightarrow> json option" where
  "JSON_parse s =
     (case parse_value (2 * length s + 2) s of
        None \<Rightarrow> None
      | Some (v, r) \<Rightarrow> if skip_ws r = [] then Some v else None)"




text \<open>What may follow a number in the output of \<open>JSON.stringify\<close>.\<close>

definition ends_number :: "string \<Rightarrow> bool" where
  "ends_number r \<longleftrightarrow> r = [] \<or> hd r \<in> {CHR '','', CHR '']'', CHR ''}''}"

section \<open>Frame schemas and codec (types/protocol.ts)\<close>

text \<open>
  What \<open>decode\<close> and \<open>encode\<close> throw: the \<open>SyntaxError\<close> of \<open>JSON.parse\<close> and the
  \<open>ZodError\<close> of a schema's \<open>parse\<close>. No other error type is defined or raised by the
  codec; neither error holds the text that was decoded.
\<close>

datatype thrown = SyntaxError | ZodError

text \<open>
  The string formats checked by \<open>z.string().uuid()\<close> and \<open>z.string().datetime()\<close>
  belong to the schema library; they are parameters of the model.
\<close>

record zod_checks =
  uuid :: "string \<Rightarrow> bool"
  datetime :: "string \<Rightarrow> bool"

text \<open>
  The schemas read a property of the input object: \<open>Some v\<close>, or \<open>None\<close> when reading
  it gives \<open>undefined\<close> (the object has no such property, or the property holds
  \<open>undefined\<close>). Each returns the parsed value, or \<open>None\<close> when it reports an issue.
  Properties that a schema does not name are dropped.
\<close>

definition property :: "(string \<times> json) list \<Rightarrow> string \<Rightarrow> json option" where
  "property kvs k = (case map_of kvs k of Some JUndefined \<Rightarrow> None | x \<Rightarrow> x)"

definition z_string :: "json option \<Rightarrow> string option" where
  "z_string x = (case x of Some (JStr s) \<Rightarrow> Some s | _ \<Rightarrow> None)"

definition z_checked :: "(string \<Rightarrow> bool) \<Rightarrow> json option \<Rightarrow> string option" where
  "z_checked ok x = (case x of Some (JStr s) \<Rightarrow> if ok s then Some s else None | _ \<Rightarrow> None)"

definition z_boolean :: "json option \<Rightarrow> bool option" where
  "z_boolean x = (case x of Some (JBool b) \<Rightarrow> Some b | _ \<Rightarrow> None)"

definition z_literal :: "string \<Rightarrow> json option \<Rightarrow> unit option" where
  "z_literal lit x = (case x of Some (JStr s) \<Rightarrow> if s = lit then Some () else None | _ \<Rightarrow> None)"

definition z_enum :: "(string \<times> 'a) list \<Rightarrow> json option \<Rightarrow> 'a option" where
  "z_enum options x = (case x of Some (JStr s) \<Rightarrow> map_of options s | _ \<Rightarrow> None)"

definition z_array_string :: "json option \<Rightarrow> string list option" where
  "z_array_string x =
     (case x of Some (JArr vs) \<Rightarrow> those (map (\<lambda>v. z_string (Some v)) vs) | _ \<Rightarrow> None)"

definition z_record_unknown :: "json option \<Rightarrow> (string \<times> json) list option" where
  "z_record_unknown x = (case x of Some (JObj kvs) \<Rightarrow> Some kvs | _ \<Rightarrow> None)"

definition z_any :: "json option \<Rightarrow> json option option" where
  "z_any x = Some x"

definition z_optional :: "(json option \<Rightarrow> 'a option) \<Rightarrow> json option \<Rightarrow> 'a option option" where
  "z_optional f x = (case x of None \<Rightarrow> Some None | Some v \<Rightarrow> map_option Some (f (Some v)))"

definition approvalPolicies :: "(string \<times> ApprovalPolicy) list" where
  "approvalPolicies = [(''suggest'', Suggest), (''auto-edit'', AutoEdit), (''full-auto'', FullAuto)]"

definition decisions :: "(string \<times> Decision) list" where
  "decisions = [(''allow'', Allow), (''deny'', Deny)]"

definition ConfigOverridesSchema :: "json option \<Rightarrow> ConfigOverrides option" where
  "ConfigOverridesSchema x =
     (case x of
        Some (JObj kvs) \<Rightarrow>
          do {
            m \<leftarrow> z_optional z_string (property kvs ''model'');
            p \<leftarrow> z_optional (z_enum approvalPolicies) (property kvs ''approvalPolicy'');
            Some (ConfigOverrides m p)
          }
      | _ \<Rightarrow> None)"

definition UserMessageFrameSchema :: "zod_checks \<Rightarrow> json \<Rightarrow> ClientFrame option" where
  "UserMessageFrameSchema Z j =
     (case j of
        JObj kvs \<Rightarrow>
          do {
            i \<leftarrow> z_optional (z_checked (uuid Z)) (property kvs ''id'');
            _ \<leftarrow> z_literal ''user_message'' (property kvs ''type'');
            sid \<leftarrow> z_optional z_string (property kvs ''sessionId'');
            content \<leftarrow> z_string (property kvs ''content'');
            imgs \<leftarrow> z_optional z_array_string (property kvs ''imagePaths'');
            cfg \<leftarrow> z_optional ConfigOverridesSchema (property kvs ''configOverrides'');
            Some (UserMessage i sid content imgs cfg)
          }
      | _ \<Rightarrow> None)"

definition ApproveFrameSchema :: "zod_checks \<Rightarrow> json \<Rightarrow> ClientFrame option" where
  "ApproveFrameSchema Z j =
     (case j of
        JObj kvs \<Rightarrow>
          do {
            i \<leftarrow> z_optional (z_checked (uuid Z)) (property kvs ''id'');
            _ \<leftarrow> z_literal ''approve'' (property kvs ''type'');
            sid \<leftarrow> z_string (property kvs ''sessionId'');
            cid \<leftarrow> z_string (property kvs ''commandId'');
            d \<leftarrow> z_enum decisions (property kvs ''decision'');
            e \<leftarrow> z_optional z_string (property kvs ''explanation'');
            Some (Approve i sid cid d e)
          }
      | _ \<Rightarrow> None)"

definition CancelFrameSchema :: "zod_checks \<Rightarrow> json \<Rightarrow> ClientFrame option" where
  "CancelFrameSchema Z j =
     (case j of
        JObj kvs \<Rightarrow>
          do {
            i \<leftarrow> z_optional (z_checked (uuid Z)) (property kvs ''id'');
            _ \<leftarrow> z_literal ''cancel'' (property kvs ''type'');
            sid \<leftarrow> z_string (property kvs ''sessionId'');
            Some (Cancel i sid)
          }
      | _ \<Rightarrow> None)"

text \<open>\<open>z.union\<close>'s \<open>parse\<close>: the first member that accepts the input, else a \<open>ZodError\<close>.\<close>

definition z_union :: "(json \<Rightarrow> 'a option) list \<Rightarrow> json \<Rightarrow> thrown + 'a" where
  "z_union members j =
     (case List.map_filter (\<lambda>m. m j) members of [] \<Rightarrow> Inl ZodError | f # _ \<Rightarrow> Inr f)"

definition ClientFrameSchema :: "zod_checks \<Rightarrow> json \<Rightarrow> thrown + ClientFrame" where
  "ClientFrameSchema Z =
     z_union [UserMessageFrameSchema Z, ApproveFrameSchema Z, CancelFrameSchema Z]"

definition ItemFrameSchema :: "zod_checks \<Rightarrow> json \<Rightarrow> ServerFrame option" where
  "ItemFrameSchema Z j =
     (case j of
        JObj kvs \<Rightarrow>
          do {
            i \<leftarrow> z_optional (z_checked (uuid Z)) (property kvs ''id'');
            _ \<leftarrow> z_literal ''item'' (property kvs ''type'');
            r \<leftarrow> z_any (property kvs ''responseItem'');
            Some (Item i r)
          }
      | _ \<Rightarrow> None)"

definition CommandPromptFrameSchema :: "zod_checks \<Rightarrow> json \<Rightarrow> ServerFrame option" where
  "CommandPromptFrameSchema Z j =
     (case j of
        JObj kvs \<Rightarrow>
          do {
            i \<leftarrow> z_optional (z_checked (uuid Z)) (property kvs ''id'');
            _ \<leftarrow> z_literal ''command_prompt'' (property kvs ''type'');
            cid \<leftarrow> z_string (property kvs ''commandId'');
            cmd \<leftarrow> z_array_string (property kvs ''command'');
            p \<leftarrow> z_any (property kvs ''applyPatch'');
            e \<leftarrow> z_optional z_string (property kvs ''explanation'');
            Some (CommandPrompt i cid cmd p e)
          }
      | _ \<Rightarrow> None)"

definition StatusFrameSchema :: "zod_checks \<Rightarrow> json \<Rightarrow> ServerFrame option" where
  "StatusFrameSchema Z j =
     (case j of
        JObj kvs \<Rightarrow>
          do {
            i \<leftarrow> z_optional (z_checked (uuid Z)) (property kvs ''id'');
            _ \<leftarrow> z_literal ''status'' (property kvs ''type'');
            m \<leftarrow> z_string (property kvs ''message'');
            d \<leftarrow> z_optional z_record_unknown (property kvs ''details'');
            Some (Status i m d)
          }
      | _ \<Rightarrow> None)"

definition ErrorFrameSchema :: "zod_checks \<Rightarrow> json \<Rightarrow> ServerFrame option" where
  "ErrorFrameSchema Z j =
     (case j of
        JObj kvs \<Rightarrow>
          do {
            i \<leftarrow> z_optional (z_checked (uuid Z)) (property kvs ''id'');
            _ \<leftarrow> z_literal ''error'' (property kvs ''type'');
            m \<leftarrow> z_string (property kvs ''message'');
            c \<leftarrow> z_optional z_string (property kvs ''code'');
            r \<leftarrow> z_optional z_boolean (property kvs ''retryable'');
            d \<leftarrow> z_optional z_record_unknown (property kvs ''details'');
            Some (Error i m c r d)
          }
      | _ \<Rightarrow> None)"

definition HeartbeatFrameSchema :: "zod_checks \<Rightarrow> json \<Rightarrow> ServerFrame option" where
  "HeartbeatFrameSchema Z j =
     (case j of
        JObj kvs \<Rightarrow>
          do {
            i \<leftarrow> z_optional (z_checked (uuid Z)) (property kvs ''id'');
            _ \<leftarrow> z_literal ''heartbeat'' (property kvs ''type'');
            t \<leftarrow> z_checked (datetime Z) (property kvs ''timestamp'');
            Some (Heartbeat i t)
          }
      | _ \<Rightarrow> None)"

definition TerminateFrameSchema :: "zod_checks \<Rightarrow> json \<Rightarrow> ServerFrame option" where
  "TerminateFrameSchema Z j =
     (case j of
        JObj kvs \<Rightarrow>
          do {
            i \<leftarrow> z_optional (z_checked (uuid Z)) (property kvs ''id'');
            _ \<leftarrow> z_literal ''terminate'' (property kvs ''type'');
            r \<leftarrow> z_string (property kvs ''reason'');
            d \<leftarrow> z_optional z_record_unknown (property kvs ''details'');
            Some (Terminate i r d)
          }
      | _ \<Rightarrow> None)"

definition ServerFrameSchema :: "zod_checks \<Rightarrow> json \<Rightarrow> thrown + ServerFrame" where
  "ServerFrameSchema Z =
     z_union [ItemFrameSchema Z, CommandPromptFrameSchema Z, StatusFrameSchema Z,
              ErrorFrameSchema Z, HeartbeatFrameSchema Z, TerminateFrameSchema Z]"

text \<open>
  The object that a schema's \<open>parse\<close> returns for a frame, which is what
  \<open>JSON.stringify\<close> is given: the properties in the order of the schema's shape, an
  absent optional property left out.
\<close>

definition opt_prop :: "string \<Rightarrow> ('a \<Rightarrow> json) \<Rightarrow> 'a option \<Rightarrow> (string \<times> json) list" where
  "opt_prop k f x = (case x of None \<Rightarrow> [] | Some v \<Rightarrow> [(k, f v)])"

definition policy_name :: "ApprovalPolicy \<Rightarrow> string" where
  "policy_name p = (case p of Suggest \<Rightarrow> ''suggest'' | AutoEdit \<Rightarrow> ''auto-edit'' | FullAuto \<Rightarrow> ''full-auto'')"


definition config_obj :: "ConfigOverrides \<Rightarrow> json" where
  "config_obj c =
     (case c of ConfigOverrides m p \<Rightarrow>
        JObj (opt_prop ''model'' JStr m @ opt_prop ''approvalPolicy'' (\<lambda>p. JStr (policy_name p)) p))"


fun server_frame_obj :: "ServerFrame \<Rightarrow> json" where
  "server_frame_obj (Item i r) =
     JObj (opt_prop ''id'' JStr i @ [(''type'', JStr ''item'')] @ opt_prop ''responseItem'' (\<lambda>v. v) r)"
| "server_frame_obj (CommandPrompt i cid cmd p e) =
     JObj (opt_prop ''id'' JStr i @ [(''type'', JStr ''command_prompt''), (''commandId'', JStr cid),
           (''command'', JArr (map JStr cmd))]
           @ opt_prop ''applyPatch'' (\<lambda>v. v) p @ opt_prop ''explanation'' JStr e)"
| "server_frame_obj (Status i m d) =
     JObj (opt_prop ''id'' JStr i @ [(''type'', JStr ''status''), (''message'', JStr m)]
           @ opt_prop ''details'' JObj d)"
| "server_frame_obj (Error i m c r d) =
     JObj (opt_prop ''id'' JStr i @ [(''type'', JStr ''error''), (''message'', JStr m)]
           @ opt_prop ''code'' JStr c @ opt_prop ''retryable'' JBool r @ opt_prop ''details'' JObj d)"
| "server_frame_obj (Heartbeat i t) =
     JObj (opt_prop ''id'' JStr i @ [(''type'', JStr ''heartbeat''), (''timestamp'', JStr t)])"
| "server_frame_obj (Terminate i r d) =
     JObj (opt_prop ''id'' JStr i @ [(''type'', JStr ''terminate''), (''reason'', JStr r)]
           @ opt_prop ''details'' JObj d)"


definition decodeClientFrame :: "zod_checks \<Rightarrow> string \<Rightarrow> thrown + ClientFrame" where
  "decodeClientFrame Z jsonString =
     (case JSON_parse jsonString of
        None \<Rightarrow> Inl SyntaxError
      | Some j \<Rightarrow> ClientFrameSchema Z j)"

definition encodeServerFrame :: "zod_checks \<Rightarrow> ServerFrame \<Rightarrow> thrown + string" where
  "encodeServerFrame Z obj =
     (case ServerFrameSchema Z (server_frame_obj obj) of
        Inl e \<Rightarrow> Inl e
      | Inr parsed \<Rightarrow> Inr (JSON_stringify (server_frame_obj parsed)))"


section \<open>Confirmation queue (core/confirmation-queue.ts)\<close>

datatype ConfirmationResult = ConfirmationResult Decision "string option"

text \<open>
  What a promise returned by \<open>register\<close> can be settled with: its \<open>resolve\<close> function
  called with a result, or its \<open>reject\<close> function called with an \<open>Error\<close> (its message).
\<close>

datatype settlement = Resolved ConfirmationResult | Rejected string

text \<open>
  A \<open>PendingConfirmation\<close> holds the \<open>resolve\<close> and \<open>reject\<close> functions of one promise
  and the handle of its timer. Promises and timers are known by handles (numbers).
\<close>

record PendingConfirmation =
  promise :: nat
  timer :: nat

text \<open>
  A running \<open>setTimeout\<close> of \<open>register\<close>: when it is due, and what its callback closes
  over (the command id, and the \<open>reject\<close> function of the promise created with it).
\<close>

datatype timeout = Timeout (deadline: nat) (forCommand: string) (rejects: nat)

text \<open>
  The queue with the part of the JavaScript runtime it acts on:
  \<^item> \<open>pending\<close>: the \<open>Map\<close>, in insertion order;
  \<^item> \<open>approvalTimeoutMs\<close>: the constructor's argument;
  \<^item> \<open>clock\<close>: the time in milliseconds;
  \<^item> \<open>timers\<close>: the timers that are set and have neither fired nor been cleared;
  \<^item> \<open>fresh\<close>: the next unused handle;
  \<^item> \<open>settled\<close>: every call of a promise's \<open>resolve\<close> or \<open>reject\<close> function, oldest
    first.
\<close>

record ConfirmationQueue =
  pending :: "(string \<times> PendingConfirmation) list"
  approvalTimeoutMs :: nat
  clock :: nat
  timers :: "(nat \<times> timeout) list"
  fresh :: nat
  settled :: "(nat \<times> settlement) list"

definition DEFAULT_APPROVAL_TIMEOUT_MS :: nat where
  "DEFAULT_APPROVAL_TIMEOUT_MS = 5 * 60 * 1000"

definition new_ConfirmationQueue :: "nat \<Rightarrow> ConfirmationQueue" where
  "new_ConfirmationQueue ms =
     \<lparr>pending = [], approvalTimeoutMs = ms, clock = 0, timers = [], fresh = 0, settled = []\<rparr>"

definition clearTimeout :: "nat \<Rightarrow> ConfirmationQueue \<Rightarrow> ConfirmationQueue" where
  "clearTimeout t q = q\<lparr>timers := AList.delete t (timers q)\<rparr>"

definition settle :: "nat \<Rightarrow> settlement \<Rightarrow> ConfirmationQueue \<Rightarrow> ConfirmationQueue" where
  "settle p s q = q\<lparr>settled := settled q @ [(p, s)]\<rparr>"

definition timeout_message :: "string \<Rightarrow> string" where
  "timeout_message commandId = ''Confirmation for command '' @ commandId @ '' timed out.''"

text \<open>
  The delay that \<open>setTimeout\<close> uses: Node sets a delay below 1 or above \<open>2\<^sup>3\<^sup>1 - 1\<close> to 1.
\<close>

definition TIMEOUT_MAX :: nat where
  "TIMEOUT_MAX = 2147483647"

definition setTimeout_delay :: "nat \<Rightarrow> nat" where
  "setTimeout_delay ms = (if 1 \<le> ms \<and> ms \<le> TIMEOUT_MAX then ms else 1)"

text \<open>The callback that \<open>register\<close> hands to \<open>setTimeout\<close>.\<close>

definition onTimeout :: "timeout \<Rightarrow> ConfirmationQueue \<Rightarrow> ConfirmationQueue" where
  "onTimeout tm q =
     (if map_of (pending q) (forCommand tm) \<noteq> None
      then settle (rejects tm) (Rejected (timeout_message (forCommand tm)))
             (q\<lparr>pending := AList.delete (forCommand tm) (pending q)\<rparr>)
      else q)"

text \<open>
  \<open>register\<close> returns the new promise (its handle) and the queue. A pending entry of the
  same id has its timer cleared and is overwritten by \<open>Map.set\<close>, which keeps the key's
  place.
\<close>

definition register :: "string \<Rightarrow> ConfirmationQueue \<Rightarrow> nat \<times> ConfirmationQueue" where
  "register commandId q =
     (let q1 = (case map_of (pending q) commandId of
                  Some existing \<Rightarrow> clearTimeout (timer existing) q
                | None \<Rightarrow> q);
          h = fresh q1;
          tm = Timeout (clock q1 + setTimeout_delay (approvalTimeoutMs q1)) commandId h
      in (h, q1\<lparr>fresh := Suc h,
                 timers := timers q1 @ [(h, tm)],
                 pending := AList.update commandId \<lparr>promise = h, timer = h\<rparr> (pending q1)\<rparr>))"

definition resolve ::
  "string \<Rightarrow> Decision \<Rightarrow> string option \<Rightarrow> ConfirmationQueue \<Rightarrow> bool \<times> ConfirmationQueue" where
  "resolve commandId d e q =
     (case map_of (pending q) commandId of
        Some pendingConfirmation \<Rightarrow>
          (let q1 = clearTimeout (timer pendingConfirmation) q;
               q2 = settle (promise pendingConfirmation) (Resolved (ConfirmationResult d e)) q1
           in (True, q2\<lparr>pending := AList.delete commandId (pending q2)\<rparr>))
      | None \<Rightarrow> (False, q))"

definition reject :: "string \<Rightarrow> string \<Rightarrow> ConfirmationQueue \<Rightarrow> bool \<times> ConfirmationQueue" where
  "reject commandId why q =
     (case map_of (pending q) commandId of
        Some pendingConfirmation \<Rightarrow>
          (let q1 = clearTimeout (timer pendingConfirmation) q;
               q2 = settle (promise pendingConfirmation) (Rejected why) q1
           in (True, q2\<lparr>pending := AList.delete commandId (pending q2)\<rparr>))
      | None \<Rightarrow> (False, q))"

text \<open>\<open>prefixOrMatcher: string | RegExp\<close>; a regular expression is its \<open>test\<close>.\<close>

datatype matcher = Prefix string | RegExp "string \<Rightarrow> bool"

fun matches :: "matcher \<Rightarrow> string \<Rightarrow> bool" where
  "matches (Prefix p) commandId = prefix p commandId"
| "matches (RegExp r) commandId = r commandId"

definition session_ended_message :: "string \<Rightarrow> string" where
  "session_ended_message commandId =
     ''Session ended while awaiting confirmation for '' @ commandId @ ''.''"

text \<open>The body of the loop of \<open>clearAllForSession\<close>, for one entry of the map.\<close>

definition clearEntry ::
  "matcher \<Rightarrow> string \<times> PendingConfirmation \<Rightarrow> ConfirmationQueue \<Rightarrow> ConfirmationQueue" where
  "clearEntry m entry q =
     (if matches m (fst entry)
      then (let q1 = clearTimeout (timer (snd entry)) q;
                q2 = settle (promise (snd entry)) (Rejected (session_ended_message (fst entry))) q1
            in q2\<lparr>pending := AList.delete (fst entry) (pending q2)\<rparr>)
      else q)"

definition clearAllForSession :: "matcher \<Rightarrow> ConfirmationQueue \<Rightarrow> ConfirmationQueue" where
  "clearAllForSession m q = fold (clearEntry m) (pending q) q"

text \<open>
  Time passes: the clock moves on by \<open>ms\<close> and every timer that is due runs its callback,
  in the order the timers were set (all timers of a queue have the same delay, so this is
  the order of their deadlines).
\<close>

definition fire :: "nat \<times> timeout \<Rightarrow> ConfirmationQueue \<Rightarrow> ConfirmationQueue" where
  "fire t q = onTimeout (snd t) (q\<lparr>timers := AList.delete (fst t) (timers q)\<rparr>)"

definition advance :: "nat \<Rightarrow> ConfirmationQueue \<Rightarrow> ConfirmationQueue" where
  "advance ms q =
     (let now = clock q + ms
      in fold fire (filter (\<lambda>t. deadline (snd t) \<le> now) (timers q)) (q\<lparr>clock := now\<rparr>))"

text \<open>The operations on a queue, for statements about every later use of it.\<close>

datatype queue_op =
    Register string
  | Resolve string Decision "string option"
  | Reject string string
  | ClearAllForSession matcher
  | Advance nat

fun apply_op :: "queue_op \<Rightarrow> ConfirmationQueue \<Rightarrow> ConfirmationQueue" where
  "apply_op (Register c) q = snd (register c q)"
| "apply_op (Resolve c d e) q = snd (resolve c d e q)"
| "apply_op (Reject c why) q = snd (reject c why q)"
| "apply_op (ClearAllForSession m) q = clearAllForSession m q"
| "apply_op (Advance ms) q = advance ms q"

definition run_ops :: "queue_op list \<Rightarrow> ConfirmationQueue \<Rightarrow> ConfirmationQueue" where
  "run_ops ops q = fold apply_op ops q"

text \<open>The calls of the \<open>resolve\<close> and \<open>reject\<close> functions of promise \<open>p\<close> so far.\<close>

definition settlements :: "nat \<Rightarrow> ConfirmationQueue \<Rightarrow> settlement list" where
  "settlements p q = map snd (filter (\<lambda>e. fst e = p) (settled q))"

section \<open>Stream transport (server/transport/http2.ts)\<close>

text \<open>
  The local variables of \<open>readFrames\<close>. A \<open>Buffer\<close> is a list of bytes; so is a
  \<open>string\<close> of the model, and \<open>toString("utf-8")\<close> is not written.
\<close>

record reader =
  buffer :: string
  readingLength :: bool
  expectedLength :: nat

definition new_reader :: reader where
  "new_reader = \<lparr>buffer = [], readingLength = True, expectedLength = 0\<rparr>"

definition readUInt32BE :: "string \<Rightarrow> nat" where
  "readUInt32BE b = foldl (\<lambda>a c. 256 * a + of_char c) 0 (take 4 b)"

text \<open>
  The two steps of the length-prefixed reader: the header is read off the buffer (when
  the reader is waiting for one), and a complete message is cut off the buffer.
\<close>

definition afterHeader :: "reader \<Rightarrow> reader" where
  "afterHeader r =
     (if readingLength r
      then r\<lparr>expectedLength := readUInt32BE (buffer r),
             buffer := drop 4 (buffer r),
             readingLength := False\<rparr>
      else r)"

definition messageBuffer :: "reader \<Rightarrow> string" where
  "messageBuffer r = take (expectedLength r) (buffer r)"

definition afterMessage :: "reader \<Rightarrow> reader" where
  "afterMessage r = r\<lparr>buffer := drop (expectedLength r) (buffer r), readingLength := True\<rparr>"

text \<open>
  The \<open>while\<close> loop of the length-prefixed branch, run on the buffer after a chunk has
  been appended: the frames it yields, the error of a frame that failed to decode (the
  generator then ends the stream and returns), and the variables it leaves.
\<close>

function drain_prefixed ::
  "(string \<Rightarrow> 'e + 'f) \<Rightarrow> reader \<Rightarrow> 'f list \<times> 'e option \<times> reader" where
  "drain_prefixed decode r =
     (if buffer r = [] then ([], None, r)
      else if readingLength r \<and> length (buffer r) < 4 then ([], None, r)
      else if length (buffer (afterHeader r)) < expectedLength (afterHeader r)
        then ([], None, afterHeader r)
      else
        case decode (messageBuffer (afterHeader r)) of
          Inl err \<Rightarrow> ([], Some err, afterMessage (afterHeader r))
        | Inr frame \<Rightarrow>
            (case drain_prefixed decode (afterMessage (afterHeader r)) of
               (fs, e, r') \<Rightarrow> (frame # fs, e, r')))"
  by pat_completeness auto
termination
  by (relation "measure (\<lambda>(decode, r). 2 * length (buffer r) + (if readingLength r then 0 else 1))")
    (auto simp: afterHeader_def afterMessage_def split: if_splits)

text \<open>\<open>line.trim() === ""\<close>, for the white space that is one byte long.\<close>

definition blank :: "string \<Rightarrow> bool" where
  "blank line \<longleftrightarrow> (\<forall>c \<in> set line. c \<in> {CHR 0x09, CHR 0x0A, CHR 0x0B, CHR 0x0C, CHR 0x0D, CHR 0x20})"

text \<open>
  The newline-delimited reader: the text before the first newline of the buffer, and the
  reader after that line and its newline have been cut off.
\<close>

definition nextLine :: "reader \<Rightarrow> string" where
  "nextLine r = takeWhile (\<lambda>c. c \<noteq> CHR 0x0A) (buffer r)"

definition afterLine :: "reader \<Rightarrow> reader" where
  "afterLine r = r\<lparr>buffer := tl (dropWhile (\<lambda>c. c \<noteq> CHR 0x0A) (buffer r))\<rparr>"

text \<open>The \<open>while\<close> loop of the newline-delimited branch.\<close>

function drain_lines ::
  "(string \<Rightarrow> 'e + 'f) \<Rightarrow> reader \<Rightarrow> 'f list \<times> 'e option \<times> reader" where
  "drain_lines decode r =
     (if CHR 0x0A \<notin> set (buffer r) then ([], None, r)
      else if blank (nextLine r) then drain_lines decode (afterLine r)
      else
        case decode (nextLine r) of
          Inl err \<Rightarrow> ([], Some err, afterLine r)
        | Inr frame \<Rightarrow>
            (case drain_lines decode (afterLine r) of (fs, e, r') \<Rightarrow> (frame # fs, e, r')))"
  by pat_completeness auto
termination
proof (relation "measure (\<lambda>(decode, r). length (buffer r))")
  fix r :: reader
  assume nl: "\<not> CHR 0x0A \<notin> set (buffer r)"
  have "dropWhile (\<lambda>c. c \<noteq> CHR 0x0A) (buffer r) \<noteq> []"
    using nl by (simp add: dropWhile_eq_Nil_conv)
  then have "length (tl (dropWhile (\<lambda>c. c \<noteq> CHR 0x0A) (buffer r)))
             < length (dropWhile (\<lambda>c. c \<noteq> CHR 0x0A) (buffer r))"
    by (cases "dropWhile (\<lambda>c. c \<noteq> CHR 0x0A) (buffer r)") auto
  also have "\<dots> \<le> length (buffer r)" by (rule length_dropWhile_le)
  finally have less: "length (buffer (afterLine r)) < length (buffer r)"
    by (simp add: afterLine_def)
  fix decode :: "string \<Rightarrow> 'e + 'f"
  show "((decode, afterLine r), (decode, r)) \<in> measure (\<lambda>(decode, r). length (buffer r))"
    using less by simp
  then show "((decode, afterLine r), (decode, r)) \<in> measure (\<lambda>(decode, r). length (buffer r))" .
qed simp

text \<open>
  The loop over the chunks of the inbound stream: each chunk is appended to the buffer,
  then the buffer is drained. A frame that does not decode ends the reading (\<open>Inl\<close>);
  otherwise the reader is left for the end of the stream (\<open>Inr\<close>).
\<close>

fun read_chunks ::
  "bool \<Rightarrow> (string \<Rightarrow> 'e + 'f) \<Rightarrow> reader \<Rightarrow> string list \<Rightarrow> 'f list \<times> ('e + reader)" where
  "read_chunks useLengthPrefix decode r [] = ([], Inr r)"
| "read_chunks useLengthPrefix decode r (chunk # chunks) =
     (case (if useLengthPrefix then drain_prefixed decode (r\<lparr>buffer := buffer r @ chunk\<rparr>)
            else drain_lines decode (r\<lparr>buffer := buffer r @ chunk\<rparr>)) of
        (fs, Some err, r') \<Rightarrow> (fs, Inl err)
      | (fs, None, r') \<Rightarrow>
          (case read_chunks useLengthPrefix decode r' chunks of (fs', x) \<Rightarrow> (fs @ fs', x)))"

text \<open>
  How \<open>readFrames\<close> returned: at the end of the inbound stream, or after a frame that did
  not decode, having ended the stream with an error frame.
\<close>

datatype 'e read_end = EndOfStream | DecodeFailed 'e

text \<open>
  \<open>readFrames\<close>: the frames it yields, in order, and how it returned. At the end of the
  stream the newline-delimited reader decodes what is left in the buffer as a last line;
  an error there is logged only.
\<close>

definition readFrames ::
  "bool \<Rightarrow> (string \<Rightarrow> 'e + 'f) \<Rightarrow> string list \<Rightarrow> 'f list \<times> 'e read_end" where
  "readFrames useLengthPrefix decode chunks =
     (case read_chunks useLengthPrefix decode new_reader chunks of
        (fs, Inl err) \<Rightarrow> (fs, DecodeFailed err)
      | (fs, Inr r) \<Rightarrow>
          if buffer r \<noteq> [] \<and> \<not> useLengthPrefix \<and> \<not> blank (buffer r)
          then (case decode (buffer r) of
                  Inr frame \<Rightarrow> (fs @ [frame], EndOfStream)
                | Inl err \<Rightarrow> (fs, EndOfStream))
          else (fs, EndOfStream))"

section \<open>Serializer (utils/serializer.ts)\<close>

text \<open>
  The engine's items and patches are JSON values, on which the sanitising
  \<open>JSON.parse(JSON.stringify(x))\<close> changes nothing; it is not written. \<open>now\<close> is
  \<open>Date.now()\<close>.
\<close>

definition responseItemToItemFrame :: "json \<Rightarrow> string \<Rightarrow> nat \<Rightarrow> ServerFrame" where
  "responseItemToItemFrame responseItem sid now =
     Item (if sid \<noteq> [] then Some (sid @ ''-'' @ digits now) else None) (Some responseItem)"

definition commandPromptToFrame :: "string \<Rightarrow> string list \<Rightarrow> json option \<Rightarrow> ServerFrame" where
  "commandPromptToFrame commandId command applyPatch =
     CommandPrompt None commandId command applyPatch None"

section \<open>Agent wrapper (core/agent-wrapper.ts)\<close>

datatype review = Approved | Denied

text \<open>\<open>CommandConfirmation review applyPatch customDenyMessage\<close>.\<close>

datatype CommandConfirmation = CommandConfirmation review "json option" "string option"

text \<open>
  The wrapper of one session:
  \<^item> \<open>sessionId\<close>: \<open>this.session.id\<close>;
  \<^item> \<open>confirmationQueue\<close>: the queue it was given;
  \<^item> \<open>emitted\<close>: the frames passed to \<open>onFrame\<close>, oldest first;
  \<^item> \<open>currentRunAbortController\<close>: the controller of the run in flight (a handle);
  \<^item> \<open>abortedControllers\<close>: the controllers whose \<open>abort()\<close> has been called, so whose
    signal reads \<open>aborted\<close>;
  \<^item> \<open>controllers\<close>: how many controllers have been created;
  \<^item> \<open>lastResponseId\<close>.
\<close>

record AgentWrapper =
  sessionId :: string
  confirmationQueue :: ConfirmationQueue
  emitted :: "ServerFrame list"
  currentRunAbortController :: "nat option"
  abortedControllers :: "nat list"
  controllers :: nat
  lastResponseId :: "string option"

definition new_AgentWrapper :: "string \<Rightarrow> ConfirmationQueue \<Rightarrow> AgentWrapper" where
  "new_AgentWrapper sid q =
     \<lparr>sessionId = sid, confirmationQueue = q, emitted = [], currentRunAbortController = None,
      abortedControllers = [], controllers = 0, lastResponseId = None\<rparr>"

definition onFrame :: "ServerFrame \<Rightarrow> AgentWrapper \<Rightarrow> AgentWrapper" where
  "onFrame frame w = w\<lparr>emitted := emitted w @ [frame]\<rparr>"

definition aborted :: "nat \<Rightarrow> AgentWrapper \<Rightarrow> bool" where
  "aborted controller w \<longleftrightarrow> controller \<in> set (abortedControllers w)"

definition cancelCurrentRun :: "string \<Rightarrow> AgentWrapper \<Rightarrow> AgentWrapper" where
  "cancelCurrentRun why w =
     (case currentRunAbortController w of
        Some controller \<Rightarrow>
          onFrame (Status None (''Agent run cancelled: '' @ why) None)
            (w\<lparr>abortedControllers := controller # abortedControllers w,
               currentRunAbortController := None\<rparr>)
      | None \<Rightarrow> w)"

text \<open>
  \<open>getCommandConfirmation\<close> up to its \<open>await\<close>: the prompt is emitted and the command id
  registered; the result is the promise awaited.
\<close>

definition getCommandConfirmation_register ::
  "string list \<Rightarrow> json option \<Rightarrow> string \<Rightarrow> AgentWrapper \<Rightarrow> nat \<times> AgentWrapper" where
  "getCommandConfirmation_register command applyPatch commandId w =
     (let w1 = onFrame (commandPromptToFrame commandId command applyPatch) w;
          r = register commandId (confirmationQueue w1)
      in (fst r, w1\<lparr>confirmationQueue := snd r\<rparr>))"

text \<open>
  \<open>getCommandConfirmation\<close> after its \<open>await\<close>, when the promise has been settled: what
  is returned to the engine.
\<close>

definition getCommandConfirmation_settled ::
  "json option \<Rightarrow> string \<Rightarrow> settlement \<Rightarrow> AgentWrapper \<Rightarrow> CommandConfirmation \<times> AgentWrapper" where
  "getCommandConfirmation_settled applyPatch commandId s w =
     (case s of
        Resolved (ConfirmationResult d e) \<Rightarrow>
          (CommandConfirmation (if d = Allow then Approved else Denied)
             (if d = Allow then applyPatch else None) e, w)
      | Rejected message \<Rightarrow>
          (CommandConfirmation Denied None
             (Some (''Approval timed out or was cancelled: '' @ message)),
           onFrame (Error None (''Approval timed out or failed for command '' @ commandId)
                      (Some ''APPROVAL_TIMEOUT'') None None) w))"

text \<open>
  \<open>handleUserMessage\<close> up to the call of the engine. \<open>importFails\<close>: the dynamic import
  of the engine fails. The result is the controller of the new run, if one is started.
\<close>

definition handleUserMessage_begin :: "bool \<Rightarrow> AgentWrapper \<Rightarrow> nat option \<times> AgentWrapper" where
  "handleUserMessage_begin importFails w =
     (if importFails
      then (None, onFrame (Error None ''Internal server error: Agent engine unavailable''
                             None None None) w)
      else
        let w1 = (if currentRunAbortController w \<noteq> None
                  then cancelCurrentRun ''new_message_interrupt'' w else w);
            controller = controllers w1;
            w2 = w1\<lparr>controllers := Suc controller, currentRunAbortController := Some controller\<rparr>
        in (Some controller, onFrame (Status None ''Agent processing... '' None) w2))"

text \<open>The callbacks given to the engine for the run with this controller's signal.\<close>

definition onItem :: "nat \<Rightarrow> json \<Rightarrow> nat \<Rightarrow> AgentWrapper \<Rightarrow> AgentWrapper" where
  "onItem controller item now w =
     (if aborted controller w then w
      else onFrame (responseItemToItemFrame item (sessionId w) now) w)"

definition onLoading :: "nat \<Rightarrow> bool \<Rightarrow> AgentWrapper \<Rightarrow> AgentWrapper" where
  "onLoading controller loading w =
     (if aborted controller w then w
      else onFrame (Status None (if loading then ''Agent thinking...'' else ''Agent idle...'') None) w)"

definition onLastResponseId :: "nat \<Rightarrow> string \<Rightarrow> AgentWrapper \<Rightarrow> AgentWrapper" where
  "onLastResponseId controller i w =
     (if aborted controller w then w else w\<lparr>lastResponseId := Some i\<rparr>)"

text \<open>
  The engine's \<open>getCommandConfirmation\<close> callback, up to the \<open>await\<close> inside: \<open>None\<close> is
  the rejected promise of an aborted run, else the promise registered. \<open>randomUUID\<close> is
  what the call \<open>randomUUID()\<close> returns.
\<close>

definition onGetCommandConfirmation ::
  "nat \<Rightarrow> string list \<Rightarrow> json option \<Rightarrow> string \<Rightarrow> AgentWrapper \<Rightarrow> nat option \<times> AgentWrapper" where
  "onGetCommandConfirmation controller command applyPatch randomUUID w =
     (if aborted controller w then (None, w)
      else
        let r = getCommandConfirmation_register command applyPatch
                  (sessionId w @ ''-cmd-'' @ randomUUID) w
        in (Some (fst r), snd r))"

text \<open>How the engine's \<open>run\<close> ended: it returned, or threw an error (name, message).\<close>

datatype run_result = Returns | Throws string string

text \<open>\<open>handleUserMessage\<close> after the call of the engine: \<open>try\<close>, \<open>catch\<close> and \<open>finally\<close>.\<close>

definition handleUserMessage_end :: "nat \<Rightarrow> run_result \<Rightarrow> AgentWrapper \<Rightarrow> AgentWrapper" where
  "handleUserMessage_end controller res w =
     (let w1 = (case res of
                  Returns \<Rightarrow>
                    if aborted controller w
                    then onFrame (Status None ''Agent run cancelled by client.'' None) w
                    else onFrame (Status None ''Agent run completed.'' None) w
                | Throws name message \<Rightarrow>
                    if aborted controller w \<and> name = ''AbortError''
                    then onFrame (Status None ''Agent run successfully aborted.'' None) w
                    else onFrame (Error None (''Agent run failed: '' @ message)
                                    (Some ''AGENT_ERROR'') None None) w)
      in if currentRunAbortController w1 = Some controller
         then w1\<lparr>currentRunAbortController := None\<rparr> else w1)"

definition handleApprove ::
  "string \<Rightarrow> Decision \<Rightarrow> string option \<Rightarrow> AgentWrapper \<Rightarrow> AgentWrapper" where
  "handleApprove commandId d e w =
     w\<lparr>confirmationQueue := snd (resolve commandId d e (confirmationQueue w))\<rparr>"

text \<open>
  \<open>handleCancel\<close> for a cancel frame with this session id; \<open>randomUUID\<close> is what the
  call \<open>randomUUID()\<close> returns.
\<close>

definition handleCancel :: "string \<Rightarrow> string \<Rightarrow> AgentWrapper \<Rightarrow> AgentWrapper" where
  "handleCancel randomUUID frameSessionId w =
     (let w1 = cancelCurrentRun (''client_cancel_frame_session_'' @ frameSessionId) w
      in w1\<lparr>confirmationQueue :=
               snd (reject (frameSessionId @ ''-cmd-'' @ randomUUID)
                      ''Client requested cancel for session'' (confirmationQueue w1))\<rparr>)"

definition cleanup :: "AgentWrapper \<Rightarrow> AgentWrapper" where
  "cleanup w =
     (let w1 = cancelCurrentRun ''session_cleanup'' w
      in w1\<lparr>confirmationQueue := clearAllForSession (Prefix (sessionId w1)) (confirmationQueue w1)\<rparr>)"

text \<open>
  Everything that can happen to a wrapper, in any order: the two halves of
  \<open>handleUserMessage\<close>, the engine's callbacks, the continuation of an awaited
  confirmation, the public methods, and operations on the shared queue by others (with
  the passing of time).
\<close>

datatype wrapper_event =
    UserMessageBegins bool
  | ItemArrives nat json nat
  | LoadingChanges nat bool
  | ConfirmationAsked nat "string list" "json option" string
  | ConfirmationSettled "json option" string settlement
  | ResponseIdArrives nat string
  | RunEnds nat run_result
  | ApproveHandled string Decision "string option"
  | CancelHandled string string
  | RunCancelled string
  | CleanedUp
  | QueueUsed queue_op

fun wrapper_step :: "wrapper_event \<Rightarrow> AgentWrapper \<Rightarrow> AgentWrapper" where
  "wrapper_step (UserMessageBegins importFails) w = snd (handleUserMessage_begin importFails w)"
| "wrapper_step (ItemArrives controller item now) w = onItem controller item now w"
| "wrapper_step (LoadingChanges controller loading) w = onLoading controller loading w"
| "wrapper_step (ConfirmationAsked controller command applyPatch randomUUID) w =
     snd (onGetCommandConfirmation controller command applyPatch randomUUID w)"
| "wrapper_step (ConfirmationSettled applyPatch commandId s) w =
     snd (getCommandConfirmation_settled applyPatch commandId s w)"
| "wrapper_step (ResponseIdArrives controller i) w = onLastResponseId controller i w"
| "wrapper_step (RunEnds controller res) w = handleUserMessage_end controller res w"
| "wrapper_step (ApproveHandled commandId d e) w = handleApprove commandId d e w"
| "wrapper_step (CancelHandled randomUUID frameSessionId) w = handleCancel randomUUID frameSessionId w"
| "wrapper_step (RunCancelled why) w = cancelCurrentRun why w"
| "wrapper_step CleanedUp w = cleanup w"
| "wrapper_step (QueueUsed op) w = w\<lparr>confirmationQueue := apply_op op (confirmationQueue w)\<rparr>"

definition wrapper_run :: "wrapper_event list \<Rightarrow> AgentWrapper \<Rightarrow> AgentWrapper" where
  "wrapper_run events w = fold wrapper_step events w"

text \<open>
  \<open>getCommandConfirmation\<close> as a whole. \<open>meanwhile\<close> is what happens to the queue while
  the promise is awaited; the result \<open>None\<close> says that the promise has not been settled
  by then, so that nothing has been returned to the engine.
\<close>

definition getCommandConfirmation ::
  "queue_op list \<Rightarrow> string list \<Rightarrow> json option \<Rightarrow> string \<Rightarrow> AgentWrapper
   \<Rightarrow> CommandConfirmation option \<times> AgentWrapper" where
  "getCommandConfirmation meanwhile command applyPatch commandId w =
     (let r = getCommandConfirmation_register command applyPatch commandId w;
          w1 = (snd r)\<lparr>confirmationQueue := run_ops meanwhile (confirmationQueue (snd r))\<rparr>
      in case settlements (fst r) (confirmationQueue w1) of
           [] \<Rightarrow> (None, w1)
         | s # ss \<Rightarrow>
             (let r' = getCommandConfirmation_settled applyPatch commandId s w1
              in (Some (fst r'), snd r')))"

text \<open>
  One run of the engine, as the wrapper sees it: the calls of the callbacks in order
  (with the time of an item, the \<open>randomUUID()\<close> of a confirmation and what happens to the
  queue while it is awaited) and how \<open>run\<close> ends.
\<close>

datatype engine_call =
    CallsOnItem json nat
  | CallsOnLoading bool
  | CallsGetCommandConfirmation "string list" "json option" string "queue_op list"
  | CallsOnLastResponseId string

record engine_run =
  importFails :: bool
  calls :: "engine_call list"
  outcome :: run_result

text \<open>
  The callbacks of a run in order. The result is \<open>False\<close> when a confirmation is never
  settled: the engine waits for ever and \<open>run\<close> does not end.
\<close>

fun engine_calls :: "nat \<Rightarrow> engine_call list \<Rightarrow> AgentWrapper \<Rightarrow> bool \<times> AgentWrapper" where
  "engine_calls controller [] w = (True, w)"
| "engine_calls controller (CallsOnItem item now # cs) w =
     engine_calls controller cs (onItem controller item now w)"
| "engine_calls controller (CallsOnLoading loading # cs) w =
     engine_calls controller cs (onLoading controller loading w)"
| "engine_calls controller (CallsOnLastResponseId i # cs) w =
     engine_calls controller cs (onLastResponseId controller i w)"
| "engine_calls controller (CallsGetCommandConfirmation command applyPatch randomUUID meanwhile # cs) w =
     (if aborted controller w then engine_calls controller cs w
      else
        case getCommandConfirmation meanwhile command applyPatch
               (sessionId w @ ''-cmd-'' @ randomUUID) w of
          (None, w1) \<Rightarrow> (False, w1)
        | (Some confirmation, w1) \<Rightarrow> engine_calls controller cs w1)"

text \<open>\<open>handleUserMessage\<close> as a whole; \<open>False\<close>: its promise is never settled.\<close>

definition handleUserMessage :: "engine_run \<Rightarrow> AgentWrapper \<Rightarrow> bool \<times> AgentWrapper" where
  "handleUserMessage run w =
     (case handleUserMessage_begin (importFails run) w of
        (None, w1) \<Rightarrow> (True, w1)
      | (Some controller, w1) \<Rightarrow>
          (case engine_calls controller (calls run) w1 of
             (False, w2) \<Rightarrow> (False, w2)
           | (True, w2) \<Rightarrow> (True, handleUserMessage_end controller (outcome run) w2)))"

section \<open>Writing to the stream (transport/http2.ts)\<close>

text \<open>
  What the server has sent on a stream: frames written by \<open>writeFrame\<close>, each standing
  for its bytes (the text \<open>encodeServerFrame\<close> gives, with a length prefix if
  \<open>useLengthPrefix\<close> and with a newline if not), and text passed to \<open>stream.end\<close> as it is.
\<close>

datatype wire = Framed bool ServerFrame | Unframed string

text \<open>
  The handler passes \<open>stream.session\<close> where \<open>readFrames\<close> expects the request and
  \<open>writeFrame\<close> the response. Of that object the code uses two members: the property
  \<open>headers\<close> (in \<open>readFrames\<close>) and the method \<open>getHeader\<close> (in \<open>writeFrame\<close>). \<open>None\<close> says that
  the object has no such member, so that reading a header off \<open>headers\<close>, or calling
  \<open>getHeader\<close>, throws a \<open>TypeError\<close>. The session of a stream of Node's \<open>http2\<close> module
  has neither member.
\<close>

record Http2Session =
  headers :: "(string \<times> string) list option"
  getHeader :: "(string \<Rightarrow> string option) option"

definition ServerHttp2Session :: Http2Session where
  "ServerHttp2Session = \<lparr>headers = None, getHeader = None\<rparr>"

text \<open>
  The part of a \<open>ServerHttp2Stream\<close> that the handler reads and writes. A stream refuses
  what is written after \<open>end\<close>.
\<close>

record ServerHttp2Stream =
  destroyed :: bool
  closed :: bool
  writableEnded :: bool
  sent :: "wire list"
  session :: Http2Session

text \<open>What can be thrown in the handler: a \<open>TypeError\<close>, or an error of the codec.\<close>

datatype exception = TypeError | Codec thrown

text \<open>
  What the code leaves to the runtime: the string formats that zod checks; whether
  \<open>stream.closed\<close> reads true as soon as \<open>stream.end\<close> has been called; whether leaving a
  \<open>for await\<close> over the stream before the stream's end destroys the stream; and the message
  of an error.
\<close>

record runtime =
  zod :: zod_checks
  end_closes :: bool
  return_destroys :: bool
  message_of :: "exception \<Rightarrow> string"

definition new_stream :: ServerHttp2Stream where
  "new_stream =
     \<lparr>destroyed = False, closed = False, writableEnded = False, sent = [],
      session = ServerHttp2Session\<rparr>"

definition stream_write :: "wire \<Rightarrow> ServerHttp2Stream \<Rightarrow> ServerHttp2Stream" where
  "stream_write x st = (if writableEnded st then st else st\<lparr>sent := sent st @ [x]\<rparr>)"

definition stream_end :: "runtime \<Rightarrow> wire option \<Rightarrow> ServerHttp2Stream \<Rightarrow> ServerHttp2Stream" where
  "stream_end R x st =
     (if writableEnded st then st
      else (case x of None \<Rightarrow> st | Some y \<Rightarrow> stream_write y st)
             \<lparr>writableEnded := True, closed := closed st \<or> end_closes R\<rparr>)"

definition LENGTH_PREFIXED_JSON_CONTENT_TYPE :: string where
  "LENGTH_PREFIXED_JSON_CONTENT_TYPE = ''application/length-prefixed-json''"

text \<open>
  \<open>writeFrame(stream, frame, res)\<close>. \<open>Inl\<close> is the exception thrown: the call of
  \<open>res.getHeader\<close> is outside the \<open>try\<close>. A frame that \<open>encodeServerFrame\<close> rejects is logged
  and not written.
\<close>

definition writeFrame ::
  "runtime \<Rightarrow> ServerHttp2Stream \<Rightarrow> ServerFrame \<Rightarrow> Http2Session \<Rightarrow> exception + ServerHttp2Stream" where
  "writeFrame R st frame res =
     (if destroyed st \<or> closed st then Inr st
      else case getHeader res of
             None \<Rightarrow> Inl TypeError
           | Some get \<Rightarrow>
               (let useLengthPrefix = (get ''content-type'' = Some LENGTH_PREFIXED_JSON_CONTENT_TYPE)
                in case encodeServerFrame (zod R) frame of
                     Inl err \<Rightarrow> Inr st
                   | Inr jsonPayload \<Rightarrow> Inr (stream_write (Framed useLengthPrefix frame) st)))"

text \<open>
  \<open>readFrames(stream, req)\<close> from its first line: reading the content type off
  \<open>req.headers\<close> throws when \<open>req\<close> has no \<open>headers\<close>; this happens when the first frame is
  asked for.
\<close>

definition readFrames_request ::
  "Http2Session \<Rightarrow> (string \<Rightarrow> 'e + 'f) \<Rightarrow> string list \<Rightarrow> exception + 'f list \<times> 'e read_end" where
  "readFrames_request req decode chunks =
     (case headers req of
        None \<Rightarrow> Inl TypeError
      | Some hs \<Rightarrow>
          Inr (readFrames (map_of hs ''content-type'' = Some LENGTH_PREFIXED_JSON_CONTENT_TYPE)
                 decode chunks))"

section \<open>The stream handler (server/routes/agent.ts)\<close>

text \<open>The handler's variables.\<close>

record handler =
  stream :: ServerHttp2Stream
  agentWrapper :: "AgentWrapper option"
  currentSessionId :: "string option"

text \<open>
  What the surroundings decide while one frame is handled: whether the peer has closed
  the stream by the time the frame is taken, whether \<open>new AgentLoop\<close> throws (with which
  message), how the engine's run goes, and what \<open>randomUUID()\<close> returns.
\<close>

record frame_env =
  peer_closed :: bool
  newAgentLoop_throws :: "string option"
  engine :: engine_run
  drawnUUID :: string

text \<open>
  How a statement is left: to the next frame, by \<open>return\<close>, never (an \<open>await\<close> that does
  not end), or by an exception.
\<close>

datatype completion = Continue | Return | Waiting | Throw exception

text \<open>
  \<open>writeFrame(stream, frame, stream.session as unknown as Http2ServerResponse)\<close>, with the
  exception it throws, if any.
\<close>

definition write_frame :: "runtime \<Rightarrow> ServerFrame \<Rightarrow> handler \<Rightarrow> exception option \<times> handler" where
  "write_frame R frame h =
     (case writeFrame R (stream h) frame (session (stream h)) of
        Inl e \<Rightarrow> (Some e, h)
      | Inr st \<Rightarrow> (None, h\<lparr>stream := st\<rparr>))"

definition write_error ::
  "runtime \<Rightarrow> string \<Rightarrow> string \<Rightarrow> handler \<Rightarrow> exception option \<times> handler" where
  "write_error R message code h = write_frame R (Error None message (Some code) None None) h"

text \<open>What follows a call of \<open>writeFrame\<close>, unless the call throws.\<close>

definition and_then ::
  "exception option \<times> handler \<Rightarrow> (handler \<Rightarrow> completion \<times> handler) \<Rightarrow> completion \<times> handler" where
  "and_then written rest =
     (case written of (Some e, h) \<Rightarrow> (Throw e, h) | (None, h) \<Rightarrow> rest h)"

definition end_stream :: "runtime \<Rightarrow> handler \<Rightarrow> handler" where
  "end_stream R h = h\<lparr>stream := stream_end R None (stream h)\<rparr>"

text \<open>
  The wrapper's \<open>onFrame\<close> is \<open>writeFrame\<close> on the stream, with the session as response. It
  throws when the stream is neither destroyed nor closed and the session has no
  \<open>getHeader\<close>; the stream's flags do not change during a call of the wrapper. When it
  does not throw, the frames that the wrapper has emitted are written in order, and the
  wrapper is kept with nothing emitted.
\<close>

definition onFrame_throws :: "handler \<Rightarrow> bool" where
  "onFrame_throws h \<longleftrightarrow>
     \<not> destroyed (stream h) \<and> \<not> closed (stream h) \<and> getHeader (session (stream h)) = None"

definition deliver :: "runtime \<Rightarrow> AgentWrapper \<Rightarrow> handler \<Rightarrow> handler" where
  "deliver R w h =
     h\<lparr>stream := fold (\<lambda>frame st. case writeFrame R st frame (session st) of
                                      Inl e \<Rightarrow> st
                                    | Inr st' \<Rightarrow> st')
                  (emitted w) (stream h),
       agentWrapper := Some (w\<lparr>emitted := []\<rparr>)\<rparr>"

text \<open>
  The wrapper when \<open>onFrame\<close> throws. \<open>cancelCurrentRun\<close> is left by the exception after it
  has aborted the run and cleared the controller. \<open>handleUserMessage\<close> calls \<open>onFrame\<close> on
  each of its paths before it calls the engine: in the \<open>catch\<close> of the failed import, in
  \<open>cancelCurrentRun\<close> for a run in flight, or for the status frame after the new controller
  has been made; its promise is rejected there.
\<close>

definition cancelCurrentRun_thrown :: "AgentWrapper \<Rightarrow> AgentWrapper" where
  "cancelCurrentRun_thrown w =
     (case currentRunAbortController w of
        Some controller \<Rightarrow>
          w\<lparr>abortedControllers := controller # abortedControllers w,
            currentRunAbortController := None\<rparr>
      | None \<Rightarrow> w)"

definition handleUserMessage_thrown :: "engine_run \<Rightarrow> AgentWrapper \<Rightarrow> AgentWrapper" where
  "handleUserMessage_thrown run w =
     (if importFails run then w
      else if currentRunAbortController w \<noteq> None then cancelCurrentRun_thrown w
      else w\<lparr>controllers := Suc (controllers w),
             currentRunAbortController := Some (controllers w)\<rparr>)"

text \<open>\<open>await agentWrapper.handleUserMessage(userMessage)\<close>.\<close>

definition forward :: "runtime \<Rightarrow> frame_env \<Rightarrow> AgentWrapper \<Rightarrow> handler \<Rightarrow> completion \<times> handler" where
  "forward R E w h =
     (if onFrame_throws h
      then (Throw TypeError,
            h\<lparr>agentWrapper := Some (handleUserMessage_thrown (engine E) w)\<rparr>)
      else case handleUserMessage (engine E) w of
             (finished, w') \<Rightarrow> (if finished then Continue else Waiting, deliver R w' h))"

text \<open>
  \<open>agentWrapper.handleCancel(clientFrame)\<close>: it calls \<open>onFrame\<close> only for a run in flight,
  before it comes to the queue.
\<close>

definition cancel :: "runtime \<Rightarrow> frame_env \<Rightarrow> string \<Rightarrow> AgentWrapper \<Rightarrow> handler \<Rightarrow> completion \<times> handler" where
  "cancel R E sid w h =
     (if onFrame_throws h \<and> currentRunAbortController w \<noteq> None
      then (Throw TypeError, h\<lparr>agentWrapper := Some (cancelCurrentRun_thrown w)\<rparr>)
      else (Continue, deliver R (handleCancel (drawnUUID E) sid w) h))"

text \<open>
  The \<open>try\<close> block in the body of the loop, for one frame. \<open>q\<close> is the confirmation queue
  of the module, which a new wrapper is given. A user message without a session id, or
  with an empty one, ends the stream.
\<close>

definition session_id_required :: "runtime \<Rightarrow> handler \<Rightarrow> completion \<times> handler" where
  "session_id_required R h =
     and_then
       (write_error R
          ''Session ID must be provided by the backend service in the first user_message frame.''
          ''SESSION_ID_REQUIRED'' h)
       (\<lambda>h'. (Return, end_stream R h'))"

definition dispatch ::
  "runtime \<Rightarrow> ConfirmationQueue \<Rightarrow> frame_env \<Rightarrow> ClientFrame \<Rightarrow> handler \<Rightarrow> completion \<times> handler" where
  "dispatch R q E clientFrame h =
     (case clientFrame of
        UserMessage i sid content imagePaths configOverrides \<Rightarrow>
          (case sid of
             None \<Rightarrow> session_id_required R h
           | Some s \<Rightarrow>
               if s = [] then session_id_required R h
               else
                 let h1 = h\<lparr>currentSessionId := Some s\<rparr>
                 in case agentWrapper h1 of
                      Some w \<Rightarrow> forward R E w h1
                    | None \<Rightarrow>
                        (case newAgentLoop_throws E of
                           Some message \<Rightarrow>
                             and_then
                               (write_error R (''Failed to create agent instance: '' @ message)
                                  ''AGENT_INIT_FAILED'' h1)
                               (\<lambda>h'. (Return, end_stream R h'))
                         | None \<Rightarrow>
                             let w = new_AgentWrapper s q;
                                 h2 = h1\<lparr>agentWrapper := Some w\<rparr>
                             in and_then
                                  (write_frame R
                                     (Status None (''Session '' @ s @ '' initialized.'') None) h2)
                                  (forward R E w)))
      | Approve i sid commandId d e \<Rightarrow>
          (case agentWrapper h of
             Some w \<Rightarrow>
               if Some sid \<noteq> currentSessionId h
               then and_then
                      (write_error R ''Session ID mismatch in approve frame.''
                         ''SESSION_ID_MISMATCH'' h)
                      (\<lambda>h'. (Continue, h'))
               else (Continue, deliver R (handleApprove commandId d e w) h)
           | None \<Rightarrow>
               and_then
                 (write_error R ''Session not initialized. Send user_message first with sessionId.''
                    ''SESSION_NOT_INIT'' h)
                 (\<lambda>h'. (Continue, h')))
      | Cancel i sid \<Rightarrow>
          (case agentWrapper h of
             Some w \<Rightarrow>
               if Some sid \<noteq> currentSessionId h
               then and_then
                      (write_error R ''Session ID mismatch in cancel frame.''
                         ''SESSION_ID_MISMATCH'' h)
                      (\<lambda>h'. (Continue, h'))
               else cancel R E sid w h
           | None \<Rightarrow>
               and_then
                 (write_error R ''Session not initialized. Send user_message first with sessionId.''
                    ''SESSION_NOT_INIT'' h)
                 (\<lambda>h'. (Continue, h'))))"

fun client_frame_type :: "ClientFrame \<Rightarrow> string" where
  "client_frame_type (UserMessage i sid content imagePaths configOverrides) = ''user_message''"
| "client_frame_type (Approve i sid commandId d e) = ''approve''"
| "client_frame_type (Cancel i sid) = ''cancel''"

text \<open>The \<open>catch\<close> clause in the body of the loop.\<close>

definition inner_catch ::
  "runtime \<Rightarrow> ClientFrame \<Rightarrow> exception \<Rightarrow> handler \<Rightarrow> exception option \<times> handler" where
  "inner_catch R clientFrame innerError h =
     (if \<not> destroyed (stream h) \<and> \<not> closed (stream h)
      then write_error R
             (''Error processing frame '' @ client_frame_type clientFrame @ '': '' @
              message_of R innerError)
             ''FRAME_PROCESSING_ERROR'' h
      else (None, h))"

text \<open>How the loop over the frames is left.\<close>

datatype loop_end = Exhausted | Broken | Returned | Stuck | Thrown exception

definition closed_by_peer :: "handler \<Rightarrow> handler" where
  "closed_by_peer h = h\<lparr>stream := (stream h)\<lparr>destroyed := True, closed := True\<rparr>\<rparr>"

text \<open>
  The loop over the frames that \<open>readFrames\<close> yields; \<open>env n\<close> is the surroundings of the
  \<open>n\<close>-th frame.
\<close>

fun frame_loop ::
  "runtime \<Rightarrow> ConfirmationQueue \<Rightarrow> (nat \<Rightarrow> frame_env) \<Rightarrow> nat \<Rightarrow> ClientFrame list \<Rightarrow> handler
   \<Rightarrow> loop_end \<times> handler" where
  "frame_loop R q env n [] h = (Exhausted, h)"
| "frame_loop R q env n (clientFrame # rest) h0 =
     (let h = (if peer_closed (env n) then closed_by_peer h0 else h0)
      in if destroyed (stream h) \<or> closed (stream h) then (Broken, h)
         else case dispatch R q (env n) clientFrame h of
                (Continue, h') \<Rightarrow> frame_loop R q env (Suc n) rest h'
              | (Return, h') \<Rightarrow> (Returned, h')
              | (Waiting, h') \<Rightarrow> (Stuck, h')
              | (Throw innerError, h') \<Rightarrow>
                  (case inner_catch R clientFrame innerError h' of
                     (Some e, h'') \<Rightarrow> (Thrown e, h'')
                   | (None, h'') \<Rightarrow> frame_loop R q env (Suc n) rest h''))"

text \<open>
  Leaving the loop before \<open>readFrames\<close> is done (by \<open>break\<close>, \<open>return\<close> or an exception),
  and the \<open>return\<close> of \<open>readFrames\<close> after a frame that cannot be decoded, leave the \<open>for
  await\<close> over the stream inside \<open>readFrames\<close> before the stream's end.
\<close>

definition leave_stream :: "runtime \<Rightarrow> handler \<Rightarrow> handler" where
  "leave_stream R h =
     h\<lparr>stream := (stream h)\<lparr>destroyed := destroyed (stream h) \<or> return_destroys R\<rparr>\<rparr>"

text \<open>
  \<open>readFrames\<close> on a frame that cannot be decoded, once the loop has taken the frames
  before it: it ends the stream with the text of an error frame; should encoding that
  frame throw, the exception leaves \<open>readFrames\<close>.
\<close>

definition decode_failed :: "runtime \<Rightarrow> thrown \<Rightarrow> handler \<Rightarrow> exception option \<times> handler" where
  "decode_failed R err h =
     (case encodeServerFrame (zod R)
             (Error None (''Frame decoding error: '' @ message_of R (Codec err)) None None None) of
        Inr jsonPayload \<Rightarrow>
          (None, h\<lparr>stream := stream_end R (Some (Unframed jsonPayload)) (stream h)\<rparr>)
      | Inl err' \<Rightarrow> (Some (Codec err'), h))"

text \<open>
  The outer \<open>catch\<close> clause; the result holds the exception that leaves it, if any (the
  one of \<open>writeFrame\<close>, after \<open>stream.end()\<close> in its \<open>finally\<close>).
\<close>

definition outer_catch :: "runtime \<Rightarrow> exception \<Rightarrow> handler \<Rightarrow> exception option \<times> handler" where
  "outer_catch R error h =
     (if \<not> destroyed (stream h) \<and> \<not> closed (stream h)
      then case write_error R (''Fatal stream error: '' @ message_of R error)
                  ''FATAL_STREAM_ERROR'' h of
             (thrown, h') \<Rightarrow> (thrown, end_stream R h')
      else (None, h))"

text \<open>How the promise of the handler is settled.\<close>

datatype outcome = Resolves | Rejects exception | Pending

text \<open>
  The \<open>finally\<close> clause, entered with the exception that is on its way out, if any. An
  exception of its own \<open>writeFrame\<close> takes that one's place, and \<open>stream.end()\<close> is not
  reached.
\<close>

definition finally_clause :: "runtime \<Rightarrow> exception option \<times> handler \<Rightarrow> outcome \<times> handler" where
  "finally_clause R entered =
     (case entered of
        (thrown, h) \<Rightarrow>
          if \<not> destroyed (stream h) \<and> \<not> closed (stream h)
          then case write_frame R (Terminate None ''Stream ended from server side.'' None) h of
                 (Some e, h') \<Rightarrow> (Rejects e, h')
               | (None, h') \<Rightarrow>
                   (case thrown of None \<Rightarrow> Resolves | Some e \<Rightarrow> Rejects e, end_stream R h')
          else (case thrown of None \<Rightarrow> Resolves | Some e \<Rightarrow> Rejects e, h))"

text \<open>
  The \<open>try\<close> statement of the handler. \<open>reading\<close> is what \<open>readFrames\<close> does: it throws
  before it yields a frame, or yields frames and ends.
\<close>

definition try_statement ::
  "runtime \<Rightarrow> ConfirmationQueue \<Rightarrow> (nat \<Rightarrow> frame_env)
   \<Rightarrow> exception + ClientFrame list \<times> thrown read_end \<Rightarrow> handler \<Rightarrow> outcome \<times> handler" where
  "try_statement R q env reading h0 =
     (case reading of
        Inl error \<Rightarrow> finally_clause R (outer_catch R error h0)
      | Inr (frames, ending) \<Rightarrow>
          (case frame_loop R q env 0 frames h0 of
             (Stuck, h) \<Rightarrow> (Pending, h)
           | (Returned, h) \<Rightarrow> finally_clause R (None, leave_stream R h)
           | (Broken, h) \<Rightarrow> finally_clause R (None, leave_stream R h)
           | (Thrown error, h) \<Rightarrow> finally_clause R (outer_catch R error (leave_stream R h))
           | (Exhausted, h) \<Rightarrow>
               (case ending of
                  EndOfStream \<Rightarrow> finally_clause R (None, h)
                | DecodeFailed err \<Rightarrow>
                    (case decode_failed R err h of
                       (None, h') \<Rightarrow> finally_clause R (None, leave_stream R h')
                     | (Some error, h') \<Rightarrow>
                         finally_clause R (outer_catch R error (leave_stream R h'))))))"

text \<open>
  \<open>handleAgentStream\<close> on a stream, with the request's path and method and the chunks of
  the inbound stream up to its end. The heartbeat timer and the \<open>close\<close> listener, which
  run outside the handler's own flow of control, are left out.
\<close>

definition handleAgentStream ::
  "runtime \<Rightarrow> ConfirmationQueue \<Rightarrow> (nat \<Rightarrow> frame_env) \<Rightarrow> ServerHttp2Stream \<Rightarrow> string \<Rightarrow> string
   \<Rightarrow> string list \<Rightarrow> outcome \<times> handler" where
  "handleAgentStream R q env st path method chunks =
     (if path \<noteq> ''/agent/stream'' \<or> method \<noteq> ''POST''
      then (Resolves,
            \<lparr>stream = stream_end R (Some (Unframed ''Not Found'')) st, agentWrapper = None,
             currentSessionId = None\<rparr>)
      else try_statement R q env
             (readFrames_request (session st) (decodeClientFrame (zod R)) chunks)
             \<lparr>stream = st, agentWrapper = None, currentSessionId = None\<rparr>)"

section \<open>Vocabulary of the statements\<close>








text \<open>String formats for the examples: 36 characters for a UUID, any non-empty date-time.\<close>

definition lenient_checks :: zod_checks where
  "lenient_checks = \<lparr>uuid = (\<lambda>s. length s = 36), datetime = (\<lambda>s. s \<noteq> [])\<rparr>"



text \<open>
  No pending entry and no running timer holds a settling function of promise \<open>p\<close>.
\<close>

definition unreferenced :: "nat \<Rightarrow> ConfirmationQueue \<Rightarrow> bool" where
  "unreferenced p q \<longleftrightarrow>
     p < fresh q \<and> (\<forall>e \<in> set (pending q). promise (snd e) \<noteq> p) \<and>
     (\<forall>t \<in> set (timers q). rejects (snd t) \<noteq> p)"

text \<open>
  The states a queue can be in: keys are unique in the map and among the timers, every
  pending entry has its running timer (created with the entry's promise, for the entry's
  command id), every running timer belongs to the pending entry of its command id, and
  handles in use are below \<open>fresh\<close>.
\<close>

definition queue_ok :: "ConfirmationQueue \<Rightarrow> bool" where
  "queue_ok q \<longleftrightarrow>
     distinct (map fst (pending q)) \<and> distinct (map fst (timers q)) \<and>
     (\<forall>e \<in> set (pending q).
        timer (snd e) = promise (snd e) \<and>
        (case map_of (timers q) (timer (snd e)) of
           None \<Rightarrow> False
         | Some tm \<Rightarrow> forCommand tm = fst e)) \<and>
     (\<forall>t \<in> set (timers q).
        fst t < fresh q \<and> rejects (snd t) = fst t \<and>
        map_of (pending q) (forCommand (snd t)) = Some \<lparr>promise = fst t, timer = fst t\<rparr>) \<and>
     (\<forall>s \<in> set (settled q). fst s < fresh q)"

text \<open>
  An operation touches a command id when it registers, resolves or rejects that id, or
  clears entries with a matcher that the id matches. \<open>elapsed\<close> is the time that passes
  in a sequence of operations.
\<close>

fun touches :: "string \<Rightarrow> queue_op \<Rightarrow> bool" where
  "touches c (Register c') = (c' = c)"
| "touches c (Resolve c' d e) = (c' = c)"
| "touches c (Reject c' why) = (c' = c)"
| "touches c (ClearAllForSession m) = matches m c"
| "touches c (Advance ms) = False"

fun elapsed :: "queue_op list \<Rightarrow> nat" where
  "elapsed [] = 0"
| "elapsed (Advance ms # ops) = ms + elapsed ops"
| "elapsed (op # ops) = elapsed ops"

text \<open>
  Promise \<open>p\<close>, registered for \<open>c\<close> with deadline \<open>dl\<close>, is still waiting; and: it has
  been rejected by its timer.
\<close>

definition awaiting :: "string \<Rightarrow> nat \<Rightarrow> nat \<Rightarrow> ConfirmationQueue \<Rightarrow> bool" where
  "awaiting c p dl q \<longleftrightarrow>
     queue_ok q \<and> map_of (timers q) p = Some (Timeout dl c p) \<and> settlements p q = []"

definition timed_out :: "string \<Rightarrow> nat \<Rightarrow> ConfirmationQueue \<Rightarrow> bool" where
  "timed_out c p q \<longleftrightarrow>
     queue_ok q \<and> settlements p q = [Rejected (timeout_message c)] \<and>
     map_of (pending q) c = None \<and> unreferenced p q"

text \<open>
  For the transport: a chunk appended to the reader's buffer; draining in either framing;
  and what a drain followed by more bytes and another drain gives.
\<close>

definition append_chunk :: "string \<Rightarrow> reader \<Rightarrow> reader" where
  "append_chunk c r = r\<lparr>buffer := buffer r @ c\<rparr>"

definition then_drain ::
  "(reader \<Rightarrow> 'f list \<times> 'e option \<times> reader) \<Rightarrow> string \<Rightarrow> 'f list \<times> 'e option \<times> reader
   \<Rightarrow> 'f list \<times> 'e option \<times> reader" where
  "then_drain D c res =
     (case res of
        (fs, Some err, r) \<Rightarrow> (fs, Some err, append_chunk c r)
      | (fs, None, r) \<Rightarrow> (case D (append_chunk c r) of (fs', e, r') \<Rightarrow> (fs @ fs', e, r')))"

definition drain :: "bool \<Rightarrow> (string \<Rightarrow> 'e + 'f) \<Rightarrow> reader \<Rightarrow> 'f list \<times> 'e option \<times> reader" where
  "drain useLengthPrefix decode r =
     (if useLengthPrefix then drain_prefixed decode r else drain_lines decode r)"

text \<open>
  For the examples: the wrapper of session \<open>s1\<close> whose first run (controller 0) has asked
  for the confirmation of a command, registered as \<open>s1-cmd-A\<close>, and is waiting for it.
\<close>

definition wrapper_awaiting_approval :: AgentWrapper where
  "wrapper_awaiting_approval =
     snd (onGetCommandConfirmation 0 [''rm'', ''-rf'', ''build''] None ''A''
            (snd (handleUserMessage_begin False
                    (new_AgentWrapper ''s1'' (new_ConfirmationQueue DEFAULT_APPROVAL_TIMEOUT_MS)))))"

text \<open>
  For the examples: a runtime (\<open>b\<close>: whether \<open>stream.closed\<close> reads true right after
  \<open>stream.end\<close>; leaving the loop over the stream destroys it); surroundings in which the
  peer keeps the stream open and the engine reports loading, one item and idle, then
  returns; and the handler of a new stream when a wrapper for session \<open>s1\<close> is waiting for
  the confirmation of \<open>s1-cmd-A\<close>.
\<close>

definition example_runtime :: "bool \<Rightarrow> runtime" where
  "example_runtime b =
     \<lparr>zod = lenient_checks, end_closes = b, return_destroys = True,
      message_of = (\<lambda>err. case err of
         TypeError \<Rightarrow> ''res.getHeader is not a function''
       | Codec SyntaxError \<Rightarrow> ''Unexpected token''
       | Codec ZodError \<Rightarrow> ''Invalid input'')\<rparr>"

definition example_env :: "nat \<Rightarrow> frame_env" where
  "example_env n =
     \<lparr>peer_closed = False, newAgentLoop_throws = None,
      engine = \<lparr>importFails = False,
                calls = [CallsOnLoading True,
                         CallsOnItem (JObj [(''type'', JStr ''message'')]) 1700000000000,
                         CallsOnLoading False],
                outcome = Returns\<rparr>,
      drawnUUID = ''B''\<rparr>"


chapter \<open>Verification\<close>

section \<open>JSON text\<close>

declare digits.simps [simp del]

subsection \<open>Strings\<close>

lemma hex_value_hex_digit: "k < 16 \<Longrightarrow> hex_value (hex_digit k) = Some k"
  by (auto simp: hex_value_def hex_digit_def Let_def)

lemma hex_value_zero: "hex_value CHR ''0'' = Some 0"
  by (simp add: hex_value_def)

lemma unicode_escape_control:
  assumes "(of_char c :: nat) < 32"
  shows "unicode_escape CHR ''0'' CHR ''0'' (hex_digit (of_char c div 16)) (hex_digit (of_char c mod 16))
         = Some c"
proof -
  have a: "(of_char c :: nat) div 16 < 16" using assms by simp
  have b: "(of_char c :: nat) mod 16 < 16" by simp
  show ?thesis
    by (simp add: unicode_escape_def hex_value_zero hex_value_hex_digit [OF a]
        hex_value_hex_digit [OF b])
qed

lemma parse_chars_escape:
  assumes "parse_chars rest = Some (s, r)"
  shows "parse_chars (escape_char c @ rest) = Some (c # s, r)"
proof -
  consider (q) "c = CHR 0x22" | (b) "c = CHR 0x5C" | (c8) "c = CHR 0x08" | (cc) "c = CHR 0x0C"
    | (ca) "c = CHR 0x0A" | (cd) "c = CHR 0x0D" | (c9) "c = CHR 0x09"
    | (ctl) "c \<notin> {CHR 0x22, CHR 0x5C, CHR 0x08, CHR 0x0C, CHR 0x0A, CHR 0x0D, CHR 0x09}"
            "(of_char c :: nat) < 32"
    | (plain) "c \<notin> {CHR 0x22, CHR 0x5C, CHR 0x08, CHR 0x0C, CHR 0x0A, CHR 0x0D, CHR 0x09}"
            "\<not> (of_char c :: nat) < 32"
    by blast
  then show ?thesis
  proof cases
    case ctl
    then show ?thesis
      using assms unicode_escape_control [OF ctl(2)]
      by (simp add: escape_char_def)
  next
    case plain
    then show ?thesis using assms by (simp add: escape_char_def)
  qed (simp_all add: escape_char_def simple_escape_def assms)
qed

lemma parse_chars_quoted:
  "parse_chars (concat (map escape_char s) @ CHR 0x22 # r) = Some (s, r)"
  by (induction s) (simp_all add: parse_chars_escape)

lemma parse_chars_quote_string:
  "quote_string s @ r = CHR 0x22 # t \<Longrightarrow> parse_chars t = Some (s, r)"
  by (auto simp: quote_string_def parse_chars_quoted)

subsection \<open>Numbers\<close>












subsection \<open>Values\<close>

lemma skip_ws_Cons: "\<not> is_ws c \<Longrightarrow> skip_ws (c # s) = c # s"
  by (simp add: skip_ws_def)

lemma ends_number_simps [simp]:
  "ends_number (CHR '','' # r)" "ends_number (CHR '']'' # r)" "ends_number (CHR ''}'' # r)"
  "ends_number []"
  by (simp_all add: ends_number_def)

lemma not_ws_simps [simp]:
  "\<not> is_ws CHR '',''" "\<not> is_ws CHR '']''" "\<not> is_ws CHR ''}''" "\<not> is_ws CHR '':''"
  "\<not> is_ws CHR 0x22" "\<not> is_ws CHR ''[''" "\<not> is_ws CHR ''{''"
  "\<not> is_ws CHR ''n''" "\<not> is_ws CHR ''t''" "\<not> is_ws CHR ''f''"
  by (simp_all add: is_ws_def)

lemma parse_value_null:
  "parse_value (Suc n) (''null'' @ r) = Some (JNull, r)"
  by (simp add: skip_ws_Cons parse_literal_def)

















section \<open>The frame codec\<close>










lemma config_obj_defined [simp]: "config_obj c \<noteq> JUndefined"
  by (cases c) (simp add: config_obj_def)








lemma mismatch:
  assumes "property kvs ''type'' = Some (JStr t)"
  shows "t \<noteq> ''item'' \<Longrightarrow> ItemFrameSchema Z (JObj kvs) = None"
    and "t \<noteq> ''command_prompt'' \<Longrightarrow> CommandPromptFrameSchema Z (JObj kvs) = None"
    and "t \<noteq> ''status'' \<Longrightarrow> StatusFrameSchema Z (JObj kvs) = None"
    and "t \<noteq> ''error'' \<Longrightarrow> ErrorFrameSchema Z (JObj kvs) = None"
    and "t \<noteq> ''heartbeat'' \<Longrightarrow> HeartbeatFrameSchema Z (JObj kvs) = None"
    and "t \<noteq> ''terminate'' \<Longrightarrow> TerminateFrameSchema Z (JObj kvs) = None"
  using assms
  by (auto simp: ItemFrameSchema_def CommandPromptFrameSchema_def StatusFrameSchema_def
      ErrorFrameSchema_def HeartbeatFrameSchema_def TerminateFrameSchema_def z_literal_def
      split: Option.bind_splits)


















section \<open>The confirmation queue\<close>

lemma map_of_delete_same: "map_of (AList.delete k xs) k = None"
  by (simp add: AList.delete_eq map_of_eq_None_iff image_iff)

text \<open>
  Claim C6. For a command id that is pending, \<open>resolve\<close> followed by \<open>reject\<close>, and
  \<open>reject\<close> followed by \<open>resolve\<close>, settle the registration exactly once: the first call
  returns true, calls the one settling function of the entry's promise and removes the
  entry; the second call finds no entry, returns false and leaves the queue (and so the
  record of settlements) as it is. Neither function has a failing branch.
\<close>

theorem resolve_reject_once:
  assumes "map_of (pending q) c = Some pc"
  shows "fst (resolve c d e q) \<and>
         settled (snd (resolve c d e q)) = settled q @ [(promise pc, Resolved (ConfirmationResult d e))] \<and>
         map_of (pending (snd (resolve c d e q))) c = None \<and>
         reject c why (snd (resolve c d e q)) = (False, snd (resolve c d e q)) \<and>
         fst (reject c why q) \<and>
         settled (snd (reject c why q)) = settled q @ [(promise pc, Rejected why)] \<and>
         map_of (pending (snd (reject c why q))) c = None \<and>
         resolve c d e (snd (reject c why q)) = (False, snd (reject c why q))"
  using assms
  by (simp add: resolve_def reject_def Let_def settle_def clearTimeout_def map_of_delete_same)

theorem resolve_reject_once_witness:
  "map_of (pending (snd (register ''s1-cmd-1'' (new_ConfirmationQueue 300000)))) ''s1-cmd-1''
     = Some \<lparr>promise = 0, timer = 0\<rparr> \<and>
   fst (resolve ''s1-cmd-1'' Allow None (snd (register ''s1-cmd-1'' (new_ConfirmationQueue 300000)))) \<and>
   reject ''s1-cmd-1'' ''late''
     (snd (resolve ''s1-cmd-1'' Allow None (snd (register ''s1-cmd-1'' (new_ConfirmationQueue 300000)))))
   = (False,
      snd (resolve ''s1-cmd-1'' Allow None (snd (register ''s1-cmd-1'' (new_ConfirmationQueue 300000)))))"
proof -
  have h: "map_of (pending (snd (register ''s1-cmd-1'' (new_ConfirmationQueue 300000)))) ''s1-cmd-1''
     = Some \<lparr>promise = 0, timer = 0\<rparr>"
    by (simp add: register_def new_ConfirmationQueue_def Let_def)
  from resolve_reject_once [OF h, of Allow None "''late''"] h show ?thesis by simp
qed

lemma set_delete_subset: "set (AList.delete k xs) \<subseteq> set xs"
  by (auto simp: AList.delete_eq)

lemma set_update_subset: "set (AList.update k v xs) \<subseteq> insert (k, v) (set xs)"
  by (induction xs) auto

lemma settlements_settle:
  "settlements p (settle p' s q) = (if p' = p then settlements p q @ [s] else settlements p q)"
  by (simp add: settlements_def settle_def)

lemma unref_register:
  assumes "unreferenced p q"
  shows "unreferenced p (snd (register c q)) \<and> settlements p (snd (register c q)) = settlements p q"
proof -
  have "set (AList.update c v (pending q)) \<subseteq> insert (c, v) (set (pending q))" for v
    by (rule set_update_subset)
  moreover have "set (AList.delete t (timers q)) \<subseteq> set (timers q)" for t
    by (rule set_delete_subset)
  ultimately show ?thesis using assms
    by (fastforce simp: unreferenced_def register_def Let_def clearTimeout_def settlements_def
        split: option.splits)
qed

lemma unref_finish:
  assumes "unreferenced p q" and "p' \<noteq> p"
  shows "unreferenced p ((settle p' s (clearTimeout t q))\<lparr>pending := AList.delete c (pending q)\<rparr>)
       \<and> settlements p ((settle p' s (clearTimeout t q))\<lparr>pending := AList.delete c (pending q)\<rparr>) = settlements p q"
proof -
  have "set (AList.delete c (pending q)) \<subseteq> set (pending q)"
    by (rule set_delete_subset)
  moreover have "set (AList.delete t (timers q)) \<subseteq> set (timers q)"
    by (rule set_delete_subset)
  ultimately show ?thesis using assms
    by (fastforce simp: unreferenced_def clearTimeout_def settlements_def settle_def)
qed

lemma unref_resolve:
  assumes "unreferenced p q"
  shows "unreferenced p (snd (resolve c d e q)) \<and> settlements p (snd (resolve c d e q)) = settlements p q"
proof (cases "map_of (pending q) c")
  case None
  then show ?thesis using assms by (simp add: resolve_def)
next
  case (Some pc)
  then have "(c, pc) \<in> set (pending q)" by (rule map_of_SomeD)
  then have "promise pc \<noteq> p" using assms by (auto simp: unreferenced_def)
  from unref_finish [OF assms this] Some show ?thesis
    by (simp add: resolve_def Let_def settle_def clearTimeout_def)
qed

lemma unref_reject:
  assumes "unreferenced p q"
  shows "unreferenced p (snd (reject c why q)) \<and> settlements p (snd (reject c why q)) = settlements p q"
proof (cases "map_of (pending q) c")
  case None
  then show ?thesis using assms by (simp add: reject_def)
next
  case (Some pc)
  then have "(c, pc) \<in> set (pending q)" by (rule map_of_SomeD)
  then have "promise pc \<noteq> p" using assms by (auto simp: unreferenced_def)
  from unref_finish [OF assms this] Some show ?thesis
    by (simp add: reject_def Let_def settle_def clearTimeout_def)
qed

lemma unref_clearEntry:
  assumes "unreferenced p q" and "promise (snd e) \<noteq> p"
  shows "unreferenced p (clearEntry m e q) \<and> settlements p (clearEntry m e q) = settlements p q"
  using unref_finish [OF assms] assms(1)
  by (simp add: clearEntry_def Let_def settle_def clearTimeout_def)

lemma unref_fold_clearEntry:
  assumes "unreferenced p q" and "\<forall>e \<in> set es. promise (snd e) \<noteq> p"
  shows "unreferenced p (fold (clearEntry m) es q) \<and>
         settlements p (fold (clearEntry m) es q) = settlements p q"
  using assms
proof (induction es arbitrary: q)
  case Nil
  then show ?case by simp
next
  case (Cons e es)
  from Cons.prems have "unreferenced p (clearEntry m e q) \<and> settlements p (clearEntry m e q) = settlements p q"
    by (intro unref_clearEntry) auto
  with Cons.IH [of "clearEntry m e q"] Cons.prems(2) show ?case by simp
qed

lemma unref_fire:
  assumes "unreferenced p q" and "rejects (snd t) \<noteq> p"
  shows "unreferenced p (fire t q) \<and> settlements p (fire t q) = settlements p q"
proof -
  have "set (AList.delete c (pending q)) \<subseteq> set (pending q)" for c
    by (rule set_delete_subset)
  moreover have "set (AList.delete t' (timers q)) \<subseteq> set (timers q)" for t'
    by (rule set_delete_subset)
  ultimately show ?thesis using assms
    by (fastforce simp: unreferenced_def fire_def onTimeout_def settlements_def settle_def)
qed

lemma unref_fold_fire:
  assumes "unreferenced p q" and "\<forall>t \<in> set ts. rejects (snd t) \<noteq> p"
  shows "unreferenced p (fold fire ts q) \<and> settlements p (fold fire ts q) = settlements p q"
  using assms
proof (induction ts arbitrary: q)
  case Nil
  then show ?case by simp
next
  case (Cons t ts)
  from Cons.prems have "unreferenced p (fire t q) \<and> settlements p (fire t q) = settlements p q"
    by (intro unref_fire) auto
  with Cons.IH [of "fire t q"] Cons.prems(2) show ?case by simp
qed

lemma unref_apply_op:
  assumes "unreferenced p q"
  shows "unreferenced p (apply_op op q) \<and> settlements p (apply_op op q) = settlements p q"
proof (cases op)
  case (Register c)
  then show ?thesis using unref_register [OF assms] by simp
next
  case (Resolve c d e)
  then show ?thesis using unref_resolve [OF assms] by simp
next
  case (Reject c why)
  then show ?thesis using unref_reject [OF assms] by simp
next
  case (ClearAllForSession m)
  have "\<forall>e \<in> set (pending q). promise (snd e) \<noteq> p"
    using assms by (simp add: unreferenced_def)
  from unref_fold_clearEntry [OF assms this] ClearAllForSession show ?thesis
    by (simp add: clearAllForSession_def)
next
  case (Advance ms)
  have u: "unreferenced p (q\<lparr>clock := clock q + ms\<rparr>)"
    using assms by (simp add: unreferenced_def)
  have "\<forall>t \<in> set (filter (\<lambda>t. deadline (snd t) \<le> clock q + ms) (timers q)). rejects (snd t) \<noteq> p"
    using assms by (simp add: unreferenced_def)
  from unref_fold_fire [OF u this] Advance show ?thesis
    by (simp add: advance_def Let_def settlements_def)
qed

lemma unref_run_ops:
  assumes "unreferenced p q"
  shows "unreferenced p (run_ops ops q) \<and> settlements p (run_ops ops q) = settlements p q"
  using assms unfolding run_ops_def
proof (induction ops arbitrary: q)
  case Nil
  then show ?case by simp
next
  case (Cons op ops)
  from unref_apply_op [OF Cons.prems, of op] Cons.IH [of "apply_op op q"] show ?case by simp
qed

lemma queue_ok_pendingD:
  assumes "queue_ok q" and "map_of (pending q) c = Some pc"
  shows "timer pc = promise pc"
    and "\<exists>tm. map_of (timers q) (promise pc) = Some tm \<and> forCommand tm = c"
proof -
  from assms(2) have mem: "(c, pc) \<in> set (pending q)" by (rule map_of_SomeD)
  from assms(1) have all: "\<forall>e \<in> set (pending q). timer (snd e) = promise (snd e) \<and>
        (case map_of (timers q) (timer (snd e)) of None \<Rightarrow> False | Some tm \<Rightarrow> forCommand tm = fst e)"
    unfolding queue_ok_def by blast
  from bspec [OF all mem] have a: "timer pc = promise pc \<and>
     (case map_of (timers q) (timer pc) of None \<Rightarrow> False | Some tm \<Rightarrow> forCommand tm = c)"
    by (auto split: option.splits)
  then show "timer pc = promise pc" by simp
  from a show "\<exists>tm. map_of (timers q) (promise pc) = Some tm \<and> forCommand tm = c"
    by (auto split: option.splits)
qed

lemma queue_ok_timerD:
  assumes "queue_ok q" and "map_of (timers q) t = Some tm"
  shows "t < fresh q" and "rejects tm = t"
    and "map_of (pending q) (forCommand tm) = Some \<lparr>promise = t, timer = t\<rparr>"
proof -
  from assms(2) have mem: "(t, tm) \<in> set (timers q)" by (rule map_of_SomeD)
  from assms(1) have all: "\<forall>t \<in> set (timers q). fst t < fresh q \<and> rejects (snd t) = fst t \<and>
        map_of (pending q) (forCommand (snd t)) = Some \<lparr>promise = fst t, timer = fst t\<rparr>"
    unfolding queue_ok_def by blast
  from bspec [OF all mem] have a: "t < fresh q \<and> rejects tm = t \<and>
     map_of (pending q) (forCommand tm) = Some \<lparr>promise = t, timer = t\<rparr>"
    by simp
  then show "t < fresh q" "rejects tm = t"
    "map_of (pending q) (forCommand tm) = Some \<lparr>promise = t, timer = t\<rparr>" by simp_all
qed

lemma queue_okI:
  assumes "distinct (map fst (pending q))" and "distinct (map fst (timers q))"
    and "\<And>c pc. map_of (pending q) c = Some pc \<Longrightarrow>
           timer pc = promise pc \<and> (\<exists>tm. map_of (timers q) (promise pc) = Some tm \<and> forCommand tm = c)"
    and "\<And>t tm. map_of (timers q) t = Some tm \<Longrightarrow>
           t < fresh q \<and> rejects tm = t \<and>
           map_of (pending q) (forCommand tm) = Some \<lparr>promise = t, timer = t\<rparr>"
    and "\<And>s. s \<in> set (settled q) \<Longrightarrow> fst s < fresh q"
  shows "queue_ok q"
proof -
  have p: "timer (snd e) = promise (snd e) \<and>
        (case map_of (timers q) (timer (snd e)) of None \<Rightarrow> False | Some tm \<Rightarrow> forCommand tm = fst e)"
    if "e \<in> set (pending q)" for e
  proof -
    from that have "map_of (pending q) (fst e) = Some (snd e)"
      using map_of_eq_Some_iff [OF assms(1), of "fst e" "snd e"] by simp
    from assms(3) [OF this] show ?thesis by auto
  qed
  have t: "fst t < fresh q \<and> rejects (snd t) = fst t \<and>
        map_of (pending q) (forCommand (snd t)) = Some \<lparr>promise = fst t, timer = fst t\<rparr>"
    if "t \<in> set (timers q)" for t
  proof -
    from that have "map_of (timers q) (fst t) = Some (snd t)"
      using map_of_eq_Some_iff [OF assms(2), of "fst t" "snd t"] by simp
    from assms(4) [OF this] show ?thesis .
  qed
  show ?thesis
    unfolding queue_ok_def using assms(1,2,5) p t by blast
qed

lemma queue_ok_new: "queue_ok (new_ConfirmationQueue ms)"
  by (simp add: queue_ok_def new_ConfirmationQueue_def)

lemma queue_ok_distinct:
  "queue_ok q \<Longrightarrow> distinct (map fst (pending q))" "queue_ok q \<Longrightarrow> distinct (map fst (timers q))"
  by (simp_all add: queue_ok_def)

lemma queue_ok_settled: "queue_ok q \<Longrightarrow> s \<in> set (settled q) \<Longrightarrow> fst s < fresh q"
  by (simp add: queue_ok_def)

text \<open>the components of the state after register\<close>

lemma register_fields:
  "fst (register c q) = fresh q"
  "fresh (snd (register c q)) = Suc (fresh q)"
  "clock (snd (register c q)) = clock q"
  "approvalTimeoutMs (snd (register c q)) = approvalTimeoutMs q"
  "settled (snd (register c q)) = settled q"
  "pending (snd (register c q)) = AList.update c \<lparr>promise = fresh q, timer = fresh q\<rparr> (pending q)"
  "timers (snd (register c q)) =
     (case map_of (pending q) c of Some pc \<Rightarrow> AList.delete (timer pc) (timers q) | None \<Rightarrow> timers q)
     @ [(fresh q, Timeout (clock q + setTimeout_delay (approvalTimeoutMs q)) c (fresh q))]"
  by (simp_all add: register_def Let_def clearTimeout_def split: option.splits)

lemma map_of_timers_register:
  assumes "queue_ok q"
  shows "map_of (timers (snd (register c q))) t =
     (if t = fresh q then Some (Timeout (clock q + setTimeout_delay (approvalTimeoutMs q)) c (fresh q))
      else if (\<exists>pc. map_of (pending q) c = Some pc \<and> timer pc = t) then None
      else map_of (timers q) t)"
proof -
  have nf: "map_of (timers q) (fresh q) = None"
    using queue_ok_timerD(1) [OF assms, of "fresh q"] by (cases "map_of (timers q) (fresh q)") auto
  show ?thesis
    using nf by (auto simp: register_fields map_of_append delete_conv' map_add_def split: option.splits)
qed

lemma queue_ok_register:
  assumes "queue_ok q"
  shows "queue_ok (snd (register c q))"
proof (rule queue_okI)
  let ?q = "snd (register c q)"
  show "distinct (map fst (pending ?q))"
    using queue_ok_distinct(1) [OF assms] by (simp add: register_fields distinct_update)
  have nf: "fresh q \<notin> fst ` set (timers q)"
    using assms unfolding queue_ok_def by fastforce
  then have "fresh q \<notin> fst ` set (AList.delete t (timers q))" for t
    using set_delete_subset [of t "timers q"] by blast
  then show "distinct (map fst (timers ?q))"
    using queue_ok_distinct(2) [OF assms] nf
    by (auto simp: register_fields distinct_delete split: option.splits)
  show "timer pc = promise pc \<and> (\<exists>tm. map_of (timers ?q) (promise pc) = Some tm \<and> forCommand tm = c')"
    if "map_of (pending ?q) c' = Some pc" for c' pc
  proof (cases "c' = c")
    case True
    with that show ?thesis
      by (auto simp: register_fields(6) update_conv' map_of_timers_register [OF assms])
  next
    case False
    with that have m: "map_of (pending q) c' = Some pc"
      by (simp add: register_fields(6) update_conv')
    from queue_ok_pendingD [OF assms m] obtain tm where
      tm: "timer pc = promise pc" "map_of (timers q) (promise pc) = Some tm" "forCommand tm = c'"
      by auto
    from queue_ok_timerD [OF assms tm(2)] have lt: "promise pc < fresh q" by simp
    have "\<not> (\<exists>pc'. map_of (pending q) c = Some pc' \<and> timer pc' = promise pc)"
    proof
      assume "\<exists>pc'. map_of (pending q) c = Some pc' \<and> timer pc' = promise pc"
      then obtain pc' where pc': "map_of (pending q) c = Some pc'" "timer pc' = promise pc" by auto
      from queue_ok_pendingD [OF assms pc'(1)] pc'(2) tm(2,3) False show False by auto
    qed
    with tm lt show ?thesis
      by (auto simp: map_of_timers_register [OF assms])
  qed
  show "t < fresh ?q \<and> rejects tm = t \<and>
        map_of (pending ?q) (forCommand tm) = Some \<lparr>promise = t, timer = t\<rparr>"
    if "map_of (timers ?q) t = Some tm" for t tm
  proof (cases "t = fresh q")
    case True
    with that show ?thesis
      by (auto simp: map_of_timers_register [OF assms] register_fields(2,6) update_conv')
  next
    case False
    with that have old: "map_of (timers q) t = Some tm"
      and nd: "\<not> (\<exists>pc. map_of (pending q) c = Some pc \<and> timer pc = t)"
      by (auto simp: map_of_timers_register [OF assms] split: if_splits)
    from queue_ok_timerD [OF assms old] nd have "forCommand tm \<noteq> c" by auto
    with queue_ok_timerD [OF assms old] show ?thesis
      by (auto simp: register_fields(2,6) update_conv')
  qed
  show "fst s < fresh ?q" if "s \<in> set (settled ?q)" for s
    using that queue_ok_settled [OF assms, of s] by (simp add: register_fields)
qed

lemma queue_ok_remove:
  assumes ok: "queue_ok q" and pc: "map_of (pending q) c = Some pc"
  shows "queue_ok (q\<lparr>timers := AList.delete (timer pc) (timers q),
                     settled := settled q @ [(promise pc, s)],
                     pending := AList.delete c (pending q)\<rparr>)"
    (is "queue_ok ?q")
proof (rule queue_okI)
  from queue_ok_pendingD [OF ok pc] obtain tm where
    tm: "timer pc = promise pc" "map_of (timers q) (promise pc) = Some tm" "forCommand tm = c"
    by auto
  show "distinct (map fst (pending ?q))"
    using queue_ok_distinct(1) [OF ok] by (simp add: distinct_delete)
  show "distinct (map fst (timers ?q))"
    using queue_ok_distinct(2) [OF ok] by (simp add: distinct_delete)
  show "timer pc' = promise pc' \<and>
        (\<exists>tm. map_of (timers ?q) (promise pc') = Some tm \<and> forCommand tm = c')"
    if "map_of (pending ?q) c' = Some pc'" for c' pc'
  proof -
    from that have ne: "c' \<noteq> c" and m: "map_of (pending q) c' = Some pc'"
      by (auto simp: delete_conv' split: if_splits)
    from queue_ok_pendingD [OF ok m] obtain tm' where
      tm': "timer pc' = promise pc'" "map_of (timers q) (promise pc') = Some tm'" "forCommand tm' = c'"
      by auto
    with tm ne have "promise pc' \<noteq> timer pc" by auto
    with tm' show ?thesis by (auto simp: delete_conv')
  qed
  show "t < fresh ?q \<and> rejects tm' = t \<and>
        map_of (pending ?q) (forCommand tm') = Some \<lparr>promise = t, timer = t\<rparr>"
    if "map_of (timers ?q) t = Some tm'" for t tm'
  proof -
    from that have ne: "t \<noteq> timer pc" and m: "map_of (timers q) t = Some tm'"
      by (auto simp: delete_conv' split: if_splits)
    note d = queue_ok_timerD [OF ok m]
    have "forCommand tm' \<noteq> c"
    proof
      assume "forCommand tm' = c"
      with d(3) pc have "pc = \<lparr>promise = t, timer = t\<rparr>" by simp
      with ne show False by simp
    qed
    with d show ?thesis by (simp add: delete_conv')
  qed
  show "fst s' < fresh ?q" if "s' \<in> set (settled ?q)" for s'
    using that queue_ok_settled [OF ok, of s'] queue_ok_timerD(1) [OF ok tm(2)] by auto
qed

lemma resolve_Some:
  "map_of (pending q) c = Some pc \<Longrightarrow>
   resolve c d e q = (True, q\<lparr>timers := AList.delete (timer pc) (timers q),
                     settled := settled q @ [(promise pc, Resolved (ConfirmationResult d e))],
                     pending := AList.delete c (pending q)\<rparr>)"
  by (simp add: resolve_def Let_def settle_def clearTimeout_def)

lemma reject_Some:
  "map_of (pending q) c = Some pc \<Longrightarrow>
   reject c why q = (True, q\<lparr>timers := AList.delete (timer pc) (timers q),
                     settled := settled q @ [(promise pc, Rejected why)],
                     pending := AList.delete c (pending q)\<rparr>)"
  by (simp add: reject_def Let_def settle_def clearTimeout_def)

lemma clearEntry_match:
  "matches m (fst e) \<Longrightarrow>
   clearEntry m e q = q\<lparr>timers := AList.delete (timer (snd e)) (timers q),
                     settled := settled q @ [(promise (snd e), Rejected (session_ended_message (fst e)))],
                     pending := AList.delete (fst e) (pending q)\<rparr>"
  by (simp add: clearEntry_def Let_def settle_def clearTimeout_def)

lemma fire_ok:
  assumes ok: "queue_ok q" and t: "map_of (timers q) t = Some tm"
  shows "fire (t, tm) q = q\<lparr>timers := AList.delete t (timers q),
                     settled := settled q @ [(t, Rejected (timeout_message (forCommand tm)))],
                     pending := AList.delete (forCommand tm) (pending q)\<rparr>"
  using queue_ok_timerD [OF ok t]
  by (simp add: fire_def onTimeout_def settle_def)

lemma queue_ok_resolve:
  assumes "queue_ok q"
  shows "queue_ok (snd (resolve c d e q))"
proof (cases "map_of (pending q) c")
  case None
  then show ?thesis using assms by (simp add: resolve_def)
next
  case (Some pc)
  then show ?thesis using queue_ok_remove [OF assms Some] by (simp add: resolve_Some)
qed

lemma queue_ok_reject:
  assumes "queue_ok q"
  shows "queue_ok (snd (reject c why q))"
proof (cases "map_of (pending q) c")
  case None
  then show ?thesis using assms by (simp add: reject_def)
next
  case (Some pc)
  then show ?thesis using queue_ok_remove [OF assms Some] by (simp add: reject_Some)
qed

lemma queue_ok_clearEntry:
  assumes "queue_ok q" and "map_of (pending q) (fst e) = Some (snd e)"
  shows "queue_ok (clearEntry m e q)"
proof (cases "matches m (fst e)")
  case True
  then show ?thesis using queue_ok_remove [OF assms] by (simp add: clearEntry_match)
next
  case False
  then show ?thesis using assms(1) by (simp add: clearEntry_def)
qed

lemma queue_ok_fire:
  assumes "queue_ok q" and "map_of (timers q) t = Some tm"
  shows "queue_ok (fire (t, tm) q)"
  using queue_ok_remove [OF assms(1) queue_ok_timerD(3) [OF assms]] fire_ok [OF assms]
  by simp

text \<open>what stays in the maps after the step for another key\<close>

lemma pending_clearEntry_other:
  "c \<noteq> fst e \<Longrightarrow> map_of (pending (clearEntry m e q)) c = map_of (pending q) c"
  by (simp add: clearEntry_def Let_def settle_def clearTimeout_def delete_conv')

lemma queue_ok_fold_clearEntry:
  assumes "queue_ok q" and "distinct (map fst es)"
    and "\<forall>e \<in> set es. map_of (pending q) (fst e) = Some (snd e)"
  shows "queue_ok (fold (clearEntry m) es q)"
  using assms
proof (induction es arbitrary: q)
  case Nil
  then show ?case by simp
next
  case (Cons e es)
  have ok: "queue_ok (clearEntry m e q)"
    using Cons.prems by (intro queue_ok_clearEntry) auto
  have "map_of (pending (clearEntry m e q)) (fst e') = Some (snd e')" if "e' \<in> set es" for e'
  proof -
    from that Cons.prems(2) have "fst e' \<noteq> fst e" by (auto simp: image_iff)
    with that Cons.prems(3) show ?thesis by (simp add: pending_clearEntry_other)
  qed
  then have "\<forall>e' \<in> set es. map_of (pending (clearEntry m e q)) (fst e') = Some (snd e')"
    by blast
  with Cons.IH [OF ok] Cons.prems(2) show ?case by simp
qed

lemma queue_ok_clearAllForSession:
  assumes "queue_ok q"
  shows "queue_ok (clearAllForSession m q)"
  unfolding clearAllForSession_def
  using assms queue_ok_distinct(1) [OF assms]
  by (intro queue_ok_fold_clearEntry) auto

lemma timers_fire_other:
  "t' \<noteq> fst t \<Longrightarrow> map_of (timers (fire t q)) t' = map_of (timers q) t'"
  by (simp add: fire_def onTimeout_def settle_def delete_conv')

lemma queue_ok_fold_fire:
  assumes "queue_ok q" and "distinct (map fst ts)"
    and "\<forall>t \<in> set ts. map_of (timers q) (fst t) = Some (snd t)"
  shows "queue_ok (fold fire ts q)"
  using assms
proof (induction ts arbitrary: q)
  case Nil
  then show ?case by simp
next
  case (Cons t ts)
  have ok: "queue_ok (fire t q)"
    using Cons.prems queue_ok_fire [of q "fst t" "snd t"] by simp
  have "map_of (timers (fire t q)) (fst t') = Some (snd t')" if "t' \<in> set ts" for t'
  proof -
    from that Cons.prems(2) have "fst t' \<noteq> fst t" by (auto simp: image_iff)
    with that Cons.prems(3) show ?thesis by (simp add: timers_fire_other)
  qed
  then have "\<forall>t' \<in> set ts. map_of (timers (fire t q)) (fst t') = Some (snd t')"
    by blast
  with Cons.IH [OF ok] Cons.prems(2) show ?case by simp
qed

lemma queue_ok_clock_eq: "queue_ok (q\<lparr>clock := n\<rparr>) = queue_ok q"
  by (simp add: queue_ok_def)

lemma queue_ok_clock: "queue_ok q \<Longrightarrow> queue_ok (q\<lparr>clock := n\<rparr>)"
  by (simp add: queue_ok_clock_eq)

lemma queue_ok_advance:
  assumes "queue_ok q"
  shows "queue_ok (advance ms q)"
  unfolding advance_def Let_def
proof (rule queue_ok_fold_fire)
  show "queue_ok (q\<lparr>clock := clock q + ms\<rparr>)" using assms by (rule queue_ok_clock)
  show "distinct (map fst (filter (\<lambda>t. deadline (snd t) \<le> clock q + ms) (timers q)))"
    using queue_ok_distinct(2) [OF assms] by (simp add: distinct_map_filter)
  show "\<forall>t\<in>set (filter (\<lambda>t. deadline (snd t) \<le> clock q + ms) (timers q)).
       map_of (timers (q\<lparr>clock := clock q + ms\<rparr>)) (fst t) = Some (snd t)"
    using queue_ok_distinct(2) [OF assms] by auto
qed

lemma queue_ok_apply_op: "queue_ok q \<Longrightarrow> queue_ok (apply_op op q)"
  by (cases op)
    (simp_all add: queue_ok_register queue_ok_resolve queue_ok_reject
      queue_ok_clearAllForSession queue_ok_advance)

lemma awaiting_pending:
  "awaiting c p dl q \<Longrightarrow> map_of (pending q) c = Some \<lparr>promise = p, timer = p\<rparr>"
  unfolding awaiting_def using queue_ok_timerD(3) [of q p "Timeout dl c p"] by simp

lemma awaiting_remove:
  assumes a: "awaiting c p dl q" and pc: "map_of (pending q) c' = Some pc" and ne: "c' \<noteq> c"
  shows "awaiting c p dl (q\<lparr>timers := AList.delete (timer pc) (timers q),
                     settled := settled q @ [(promise pc, s)],
                     pending := AList.delete c' (pending q)\<rparr>)"
proof -
  from a have ok: "queue_ok q" and t: "map_of (timers q) p = Some (Timeout dl c p)"
    and s: "settlements p q = []" by (simp_all add: awaiting_def)
  from queue_ok_pendingD [OF ok pc] t ne have "timer pc \<noteq> p" "promise pc \<noteq> p" by auto
  with t s queue_ok_remove [OF ok pc, of s] show ?thesis
    by (simp add: awaiting_def delete_conv' settlements_def)
qed

lemma awaiting_register:
  assumes a: "awaiting c p dl q" and ne: "c' \<noteq> c"
  shows "awaiting c p dl (snd (register c' q))"
proof -
  from a have ok: "queue_ok q" and t: "map_of (timers q) p = Some (Timeout dl c p)"
    and s: "settlements p q = []" by (simp_all add: awaiting_def)
  from queue_ok_timerD(1) [OF ok t] have "p \<noteq> fresh q" by simp
  moreover have "\<not> (\<exists>pc. map_of (pending q) c' = Some pc \<and> timer pc = p)"
  proof
    assume "\<exists>pc. map_of (pending q) c' = Some pc \<and> timer pc = p"
    then obtain pc where pc: "map_of (pending q) c' = Some pc" "timer pc = p" by auto
    from queue_ok_pendingD [OF ok pc(1)] pc(2) t ne show False by auto
  qed
  ultimately have "map_of (timers (snd (register c' q))) p = Some (Timeout dl c p)"
    using t by (simp add: map_of_timers_register [OF ok])
  with s queue_ok_register [OF ok, of c'] show ?thesis
    by (simp add: awaiting_def settlements_def register_fields(5))
qed

lemma awaiting_resolve:
  assumes a: "awaiting c p dl q" and ne: "c' \<noteq> c"
  shows "awaiting c p dl (snd (resolve c' d e q))"
proof (cases "map_of (pending q) c'")
  case None
  then show ?thesis using a by (simp add: resolve_def)
next
  case (Some pc)
  then show ?thesis using awaiting_remove [OF a Some ne] by (simp add: resolve_Some)
qed

lemma awaiting_reject:
  assumes a: "awaiting c p dl q" and ne: "c' \<noteq> c"
  shows "awaiting c p dl (snd (reject c' why q))"
proof (cases "map_of (pending q) c'")
  case None
  then show ?thesis using a by (simp add: reject_def)
next
  case (Some pc)
  then show ?thesis using awaiting_remove [OF a Some ne] by (simp add: reject_Some)
qed

lemma awaiting_clearEntry:
  assumes a: "awaiting c p dl q" and e: "map_of (pending q) (fst e) = Some (snd e)"
    and m: "\<not> matches m c"
  shows "awaiting c p dl (clearEntry m e q)"
proof (cases "matches m (fst e)")
  case True
  with m have "fst e \<noteq> c" by auto
  from awaiting_remove [OF a e this] True show ?thesis by (simp add: clearEntry_match)
next
  case False
  then show ?thesis using a by (simp add: clearEntry_def)
qed

lemma awaiting_fold_clearEntry:
  assumes "awaiting c p dl q" and "distinct (map fst es)"
    and "\<forall>e \<in> set es. map_of (pending q) (fst e) = Some (snd e)" and "\<not> matches m c"
  shows "awaiting c p dl (fold (clearEntry m) es q)"
  using assms(1-3)
proof (induction es arbitrary: q)
  case Nil
  then show ?case by simp
next
  case (Cons e es)
  have a: "awaiting c p dl (clearEntry m e q)"
    using Cons.prems assms(4) by (intro awaiting_clearEntry) auto
  have "map_of (pending (clearEntry m e q)) (fst e') = Some (snd e')" if "e' \<in> set es" for e'
  proof -
    from that Cons.prems(2) have "fst e' \<noteq> fst e" by (auto simp: image_iff)
    with that Cons.prems(3) show ?thesis by (simp add: pending_clearEntry_other)
  qed
  then have "\<forall>e' \<in> set es. map_of (pending (clearEntry m e q)) (fst e') = Some (snd e')"
    by blast
  with Cons.IH [OF a] Cons.prems(2) show ?case by simp
qed

lemma awaiting_fire:
  assumes a: "awaiting c p dl q" and t: "map_of (timers q) t = Some tm" and ne: "t \<noteq> p"
  shows "awaiting c p dl (fire (t, tm) q)"
proof -
  from a have ok: "queue_ok q" and tp: "map_of (timers q) p = Some (Timeout dl c p)"
    by (simp_all add: awaiting_def)
  note d = queue_ok_timerD [OF ok t]
  have "forCommand tm \<noteq> c"
  proof
    assume "forCommand tm = c"
    with d(3) awaiting_pending [OF a] ne show False by simp
  qed
  from awaiting_remove [OF a d(3) this] fire_ok [OF ok t] show ?thesis by simp
qed

lemma awaiting_fold_fire:
  assumes "awaiting c p dl q" and "distinct (map fst ts)"
    and "\<forall>t \<in> set ts. map_of (timers q) (fst t) = Some (snd t)"
    and "\<forall>t \<in> set ts. fst t \<noteq> p"
  shows "awaiting c p dl (fold fire ts q)"
  using assms
proof (induction ts arbitrary: q)
  case Nil
  then show ?case by simp
next
  case (Cons t ts)
  have a: "awaiting c p dl (fire t q)"
    using Cons.prems awaiting_fire [of c p dl q "fst t" "snd t"] by simp
  have "map_of (timers (fire t q)) (fst t') = Some (snd t')" if "t' \<in> set ts" for t'
  proof -
    from that Cons.prems(2) have "fst t' \<noteq> fst t" by (auto simp: image_iff)
    with that Cons.prems(3) show ?thesis by (simp add: timers_fire_other)
  qed
  then have "\<forall>t' \<in> set ts. map_of (timers (fire t q)) (fst t') = Some (snd t')"
    by blast
  with Cons.IH [OF a] Cons.prems(2,4) show ?case by simp
qed

lemma awaiting_clock: "awaiting c p dl (q\<lparr>clock := n\<rparr>) = awaiting c p dl q"
  by (simp add: awaiting_def queue_ok_clock_eq settlements_def)

lemma awaiting_advance:
  assumes a: "awaiting c p dl q" and lt: "clock q + ms < dl"
  shows "awaiting c p dl (advance ms q)"
  unfolding advance_def Let_def
proof (rule awaiting_fold_fire)
  from a have ok: "queue_ok q" and tp: "map_of (timers q) p = Some (Timeout dl c p)"
    by (simp_all add: awaiting_def)
  show "awaiting c p dl (q\<lparr>clock := clock q + ms\<rparr>)" using a by (simp add: awaiting_clock)
  show "distinct (map fst (filter (\<lambda>t. deadline (snd t) \<le> clock q + ms) (timers q)))"
    using queue_ok_distinct(2) [OF ok] by (simp add: distinct_map_filter)
  show "\<forall>t\<in>set (filter (\<lambda>t. deadline (snd t) \<le> clock q + ms) (timers q)).
       map_of (timers (q\<lparr>clock := clock q + ms\<rparr>)) (fst t) = Some (snd t)"
    using queue_ok_distinct(2) [OF ok] by auto
  show "\<forall>t\<in>set (filter (\<lambda>t. deadline (snd t) \<le> clock q + ms) (timers q)). fst t \<noteq> p"
  proof
    fix t assume "t \<in> set (filter (\<lambda>t. deadline (snd t) \<le> clock q + ms) (timers q))"
    then have m: "t \<in> set (timers q)" and d: "deadline (snd t) \<le> clock q + ms" by auto
    from m queue_ok_distinct(2) [OF ok] have "map_of (timers q) (fst t) = Some (snd t)" by auto
    with tp d lt show "fst t \<noteq> p" by auto
  qed
qed

lemma clock_clearEntry: "clock (clearEntry m e q) = clock q"
  by (simp add: clearEntry_def Let_def settle_def clearTimeout_def)

lemma clock_fold_clearEntry: "clock (fold (clearEntry m) es q) = clock q"
  by (induction es arbitrary: q) (simp_all add: clock_clearEntry)

lemma clock_fire: "clock (fire t q) = clock q"
  by (simp add: fire_def onTimeout_def settle_def)

lemma clock_fold_fire: "clock (fold fire ts q) = clock q"
  by (induction ts arbitrary: q) (simp_all add: clock_fire)

lemma clock_apply_op:
  "clock (apply_op op q) = clock q + elapsed [op]"
  by (cases op)
    (simp_all add: register_fields resolve_def reject_def Let_def settle_def clearTimeout_def
      clearAllForSession_def clock_fold_clearEntry advance_def clock_fold_fire
      split: option.splits)

lemma elapsed_Cons: "elapsed (op # ops) = elapsed [op] + elapsed ops"
  by (cases op) simp_all

lemma awaiting_apply_op:
  assumes a: "awaiting c p dl q" and nt: "\<not> touches c op" and lt: "clock q + elapsed [op] < dl"
  shows "awaiting c p dl (apply_op op q)"
proof (cases op)
  case (Register c')
  with nt show ?thesis using awaiting_register [OF a] by simp
next
  case (Resolve c' d e)
  with nt show ?thesis using awaiting_resolve [OF a] by simp
next
  case (Reject c' why)
  with nt show ?thesis using awaiting_reject [OF a] by simp
next
  case (ClearAllForSession m)
  from a have ok: "queue_ok q" by (simp add: awaiting_def)
  have "awaiting c p dl (fold (clearEntry m) (pending q) q)"
    using a queue_ok_distinct(1) [OF ok] nt ClearAllForSession
    by (intro awaiting_fold_clearEntry) auto
  with ClearAllForSession show ?thesis by (simp add: clearAllForSession_def)
next
  case (Advance ms)
  with lt show ?thesis using awaiting_advance [OF a, of ms] by simp
qed

lemma awaiting_run_ops:
  assumes "awaiting c p dl q" and "\<forall>op \<in> set ops. \<not> touches c op"
    and "clock q + elapsed ops < dl"
  shows "awaiting c p dl (run_ops ops q) \<and> clock (run_ops ops q) = clock q + elapsed ops"
  using assms unfolding run_ops_def
proof (induction ops arbitrary: q)
  case Nil
  then show ?case by simp
next
  case (Cons op ops)
  from Cons.prems(3) have lt: "clock q + elapsed [op] < dl"
    and lt': "clock q + elapsed [op] + elapsed ops < dl"
    using elapsed_Cons [of op ops] by simp_all
  from Cons.prems have a: "awaiting c p dl (apply_op op q)"
    using lt by (intro awaiting_apply_op) auto
  from Cons.IH [OF a] Cons.prems(2) lt' show ?case
    using elapsed_Cons [of op ops] by (simp add: clock_apply_op)
qed

text \<open>the timer of the awaited registration fires\<close>

lemma timed_out_fire_own:
  assumes a: "awaiting c p dl q"
  shows "timed_out c p (fire (p, Timeout dl c p) q)"
proof -
  from a have ok: "queue_ok q" and t: "map_of (timers q) p = Some (Timeout dl c p)"
    and s: "settlements p q = []" by (simp_all add: awaiting_def)
  let ?q = "q\<lparr>timers := AList.delete p (timers q),
               settled := settled q @ [(p, Rejected (timeout_message c))],
               pending := AList.delete c (pending q)\<rparr>"
  have eq: "fire (p, Timeout dl c p) q = ?q" using fire_ok [OF ok t] by simp
  have ok': "queue_ok ?q" using queue_ok_remove [OF ok awaiting_pending [OF a]] by simp
  have "promise (snd e) \<noteq> p" if "e \<in> set (pending ?q)" for e
  proof
    assume p: "promise (snd e) = p"
    from that queue_ok_distinct(1) [OF ok'] have "map_of (pending ?q) (fst e) = Some (snd e)"
      by auto
    then have m: "map_of (pending q) (fst e) = Some (snd e)" and ne: "fst e \<noteq> c"
      by (auto simp: delete_conv' split: if_splits)
    from queue_ok_pendingD [OF ok m] p t ne show False by auto
  qed
  moreover have "rejects (snd t') \<noteq> p" if "t' \<in> set (timers ?q)" for t'
  proof -
    from that queue_ok_distinct(2) [OF ok'] have m: "map_of (timers ?q) (fst t') = Some (snd t')"
      by auto
    then have "fst t' \<noteq> p" by (auto simp: delete_conv' split: if_splits)
    with queue_ok_timerD(2) [OF ok' m] show ?thesis by simp
  qed
  moreover have "p < fresh ?q" using queue_ok_timerD(1) [OF ok t] by simp
  ultimately have "unreferenced p ?q" unfolding unreferenced_def by blast
  with ok' s show ?thesis
    by (simp add: eq timed_out_def settlements_def delete_conv')
qed

lemma pending_fire_None: "map_of (pending q) c = None \<Longrightarrow> map_of (pending (fire t q)) c = None"
  by (simp add: fire_def onTimeout_def settle_def delete_conv')

lemma timed_out_fire:
  assumes r: "timed_out c p q" and t: "map_of (timers q) t = Some tm"
  shows "timed_out c p (fire (t, tm) q)"
proof -
  from r have ok: "queue_ok q" and u: "unreferenced p q" by (simp_all add: timed_out_def)
  from map_of_SomeD [OF t] u have "rejects (snd (t, tm)) \<noteq> p"
    unfolding unreferenced_def by blast
  from unref_fire [OF u this] queue_ok_fire [OF ok t] r show ?thesis
    by (simp add: timed_out_def pending_fire_None)
qed

lemma timed_out_fold_fire:
  assumes "timed_out c p q" and "distinct (map fst ts)"
    and "\<forall>t \<in> set ts. map_of (timers q) (fst t) = Some (snd t)"
  shows "timed_out c p (fold fire ts q)"
  using assms
proof (induction ts arbitrary: q)
  case Nil
  then show ?case by simp
next
  case (Cons t ts)
  have r: "timed_out c p (fire t q)"
    using Cons.prems timed_out_fire [of c p q "fst t" "snd t"] by simp
  have "map_of (timers (fire t q)) (fst t') = Some (snd t')" if "t' \<in> set ts" for t'
  proof -
    from that Cons.prems(2) have "fst t' \<noteq> fst t" by (auto simp: image_iff)
    with that Cons.prems(3) show ?thesis by (simp add: timers_fire_other)
  qed
  then have "\<forall>t' \<in> set ts. map_of (timers (fire t q)) (fst t') = Some (snd t')"
    by blast
  with Cons.IH [OF r] Cons.prems(2) show ?case by simp
qed

lemma awaiting_due_fold_fire:
  assumes "awaiting c p dl q" and "distinct (map fst ts)"
    and "\<forall>t \<in> set ts. map_of (timers q) (fst t) = Some (snd t)"
    and "(p, Timeout dl c p) \<in> set ts"
  shows "timed_out c p (fold fire ts q)"
  using assms
proof (induction ts arbitrary: q)
  case Nil
  then show ?case by simp
next
  case (Cons t ts)
  have rest: "\<forall>t' \<in> set ts. map_of (timers (fire t q)) (fst t') = Some (snd t')"
  proof
    fix t' assume t': "t' \<in> set ts"
    with Cons.prems(2) have "fst t' \<noteq> fst t" by (auto simp: image_iff)
    with t' Cons.prems(3) show "map_of (timers (fire t q)) (fst t') = Some (snd t')"
      by (simp add: timers_fire_other)
  qed
  show ?case
  proof (cases "t = (p, Timeout dl c p)")
    case True
    with timed_out_fire_own [OF Cons.prems(1)] have "timed_out c p (fire t q)" by simp
    from timed_out_fold_fire [OF this _ rest] Cons.prems(2) show ?thesis by simp
  next
    case False
    from Cons.prems(1) have tp: "map_of (timers q) p = Some (Timeout dl c p)"
      by (simp add: awaiting_def)
    from Cons.prems(3) have "map_of (timers q) (fst t) = Some (snd t)" by simp
    with tp False have "fst t \<noteq> p" by (cases t) auto
    with Cons.prems have a: "awaiting c p dl (fire t q)"
      using awaiting_fire [of c p dl q "fst t" "snd t"] by simp
    from False Cons.prems(4) have "(p, Timeout dl c p) \<in> set ts" by auto
    from Cons.IH [OF a _ rest this] Cons.prems(2) show ?thesis by simp
  qed
qed

lemma awaiting_timeout:
  assumes a: "awaiting c p dl q" and due: "dl \<le> clock q + ms"
  shows "timed_out c p (advance ms q)"
  unfolding advance_def Let_def
proof (rule awaiting_due_fold_fire)
  from a have ok: "queue_ok q" and tp: "map_of (timers q) p = Some (Timeout dl c p)"
    by (simp_all add: awaiting_def)
  show "awaiting c p dl (q\<lparr>clock := clock q + ms\<rparr>)" using a by (simp add: awaiting_clock)
  show "distinct (map fst (filter (\<lambda>t. deadline (snd t) \<le> clock q + ms) (timers q)))"
    using queue_ok_distinct(2) [OF ok] by (simp add: distinct_map_filter)
  show "\<forall>t\<in>set (filter (\<lambda>t. deadline (snd t) \<le> clock q + ms) (timers q)).
       map_of (timers (q\<lparr>clock := clock q + ms\<rparr>)) (fst t) = Some (snd t)"
    using queue_ok_distinct(2) [OF ok] by auto
  show "(p, Timeout dl c p) \<in> set (filter (\<lambda>t. deadline (snd t) \<le> clock q + ms) (timers q))"
    using map_of_SomeD [OF tp] due by simp
qed

lemma awaiting_after_register:
  assumes ok: "queue_ok q"
  shows "awaiting c (fresh q) (clock q + setTimeout_delay (approvalTimeoutMs q)) (snd (register c q))"
proof -
  have "fst s \<noteq> fresh q" if "s \<in> set (settled q)" for s
    using queue_ok_settled [OF ok that] by simp
  then have "settlements (fresh q) q = []"
    by (simp add: settlements_def filter_empty_conv)
  then show ?thesis
    using queue_ok_register [OF ok, of c]
    by (simp add: awaiting_def map_of_timers_register [OF ok] settlements_def register_fields(5))
qed

lemma queue_timeout:
  assumes "queue_ok q" and "register c q = (p, q1)"
    and "\<forall>op \<in> set ops. \<not> touches c op"
    and "elapsed ops < setTimeout_delay (approvalTimeoutMs q)"
    and "setTimeout_delay (approvalTimeoutMs q) \<le> elapsed ops + ms"
  shows "settlements p (run_ops ops q1) = [] \<and>
         settlements p (advance ms (run_ops ops q1)) = [Rejected (timeout_message c)] \<and>
         map_of (pending (advance ms (run_ops ops q1))) c = None \<and>
         settlements p (run_ops later (advance ms (run_ops ops q1))) = [Rejected (timeout_message c)]"
proof -
  from assms(2) have p: "p = fresh q" and q1: "q1 = snd (register c q)"
    using register_fields(1) [of c q] by (auto simp: prod_eq_iff)
  let ?dl = "clock q + setTimeout_delay (approvalTimeoutMs q)"
  have a: "awaiting c p ?dl q1"
    unfolding p q1 by (rule awaiting_after_register [OF assms(1)])
  have "clock q1 + elapsed ops < ?dl" using assms(4) by (simp add: q1 register_fields)
  from awaiting_run_ops [OF a assms(3) this]
  have a2: "awaiting c p ?dl (run_ops ops q1)"
    and c2: "clock (run_ops ops q1) = clock q + elapsed ops"
    by (simp_all add: q1 register_fields)
  have "?dl \<le> clock (run_ops ops q1) + ms" using assms(5) c2 by simp
  from awaiting_timeout [OF a2 this] have r: "timed_out c p (advance ms (run_ops ops q1))" .
  then have u: "unreferenced p (advance ms (run_ops ops q1))" by (simp add: timed_out_def)
  from a2 r unref_run_ops [OF u, of later] show ?thesis
    by (simp add: awaiting_def timed_out_def)
qed

lemma overwritten_awaiting:
  assumes a: "awaiting c p1 dl qm" and r: "register c qm = (p2, q2)"
  shows "map_of (timers q2) p1 = None \<and>
         map_of (pending q2) c = Some \<lparr>promise = p2, timer = p2\<rparr> \<and> p2 \<noteq> p1 \<and>
         settlements p1 (run_ops later q2) = []"
proof -
  from a have ok: "queue_ok qm"
    and t1: "map_of (timers qm) p1 = Some (Timeout dl c p1)"
    and s1: "settlements p1 qm = []" by (simp_all add: awaiting_def)
  from r have p2: "p2 = fresh qm" and q2: "q2 = snd (register c qm)"
    using register_fields(1) [of c qm] by (auto simp: prod_eq_iff)
  have ok2: "queue_ok q2" unfolding q2 by (rule queue_ok_register [OF ok])
  note pc1 = awaiting_pending [OF a]
  from queue_ok_timerD(1) [OF ok t1] have lt: "p1 < fresh qm" .
  have t2: "map_of (timers q2) p1 = None"
    using pc1 lt by (simp add: q2 map_of_timers_register [OF ok])
  have pc2: "map_of (pending q2) c = Some \<lparr>promise = p2, timer = p2\<rparr>"
    by (simp add: q2 p2 register_fields(6) update_conv')
  have u: "unreferenced p1 q2"
    unfolding unreferenced_def
  proof (intro conjI ballI)
    show "p1 < fresh q2" using lt by (simp add: q2 register_fields)
    fix e assume "e \<in> set (pending q2)"
    with queue_ok_distinct(1) [OF ok2] have m: "map_of (pending q2) (fst e) = Some (snd e)"
      by auto
    from queue_ok_pendingD [OF ok2 m] t2 show "promise (snd e) \<noteq> p1" by auto
  next
    fix t assume "t \<in> set (timers q2)"
    with queue_ok_distinct(2) [OF ok2] have m: "map_of (timers q2) (fst t) = Some (snd t)"
      by auto
    with t2 have "fst t \<noteq> p1" by auto
    with queue_ok_timerD(2) [OF ok2 m] show "rejects (snd t) \<noteq> p1" by simp
  qed
  have "settlements p1 q2 = []" using s1 by (simp add: q2 settlements_def register_fields(5))
  with unref_run_ops [OF u, of later] t2 pc2 p2 lt show ?thesis by simp
qed

text \<open>
  Claim C10. A command id is registered; then anything happens to the queue that does not
  resolve, reject, clear or re-register that id, for less than the timeout, so that the id
  is still pending; then \<open>register\<close> is called again for it. The promise of the first call
  is never settled: the second call clears the first timer and replaces the map entry by
  one that holds the functions of the new promise, and no sequence of later queue
  operations (registrations, resolutions, rejections, session clean-ups, the passing of
  time) calls the \<open>resolve\<close> or \<open>reject\<close> function of the first promise.
\<close>

theorem overwritten_registration_never_settled:
  assumes "queue_ok q" and "register c q = (p1, q1)"
    and "\<forall>op \<in> set ops. \<not> touches c op"
    and "elapsed ops < setTimeout_delay (approvalTimeoutMs q)"
    and "register c (run_ops ops q1) = (p2, q2)"
  shows "map_of (pending (run_ops ops q1)) c = Some \<lparr>promise = p1, timer = p1\<rparr> \<and>
         map_of (timers (run_ops ops q1)) p1 \<noteq> None \<and> map_of (timers q2) p1 = None \<and>
         map_of (pending q2) c = Some \<lparr>promise = p2, timer = p2\<rparr> \<and> p2 \<noteq> p1 \<and>
         (\<forall>later. settlements p1 (run_ops later q2) = [])"
proof -
  from assms(2) have p1: "p1 = fresh q" and q1: "q1 = snd (register c q)"
    using register_fields(1) [of c q] by (auto simp: prod_eq_iff)
  let ?dl = "clock q + setTimeout_delay (approvalTimeoutMs q)"
  have a: "awaiting c p1 ?dl q1"
    unfolding p1 q1 by (rule awaiting_after_register [OF assms(1)])
  have "clock q1 + elapsed ops < ?dl" using assms(4) by (simp add: q1 register_fields)
  from awaiting_run_ops [OF a assms(3) this]
  have a2: "awaiting c p1 ?dl (run_ops ops q1)" by simp
  then have t: "map_of (timers (run_ops ops q1)) p1 \<noteq> None" by (simp add: awaiting_def)
  from awaiting_pending [OF a2] t overwritten_awaiting [OF a2 assms(5)] show ?thesis by simp
qed

theorem overwritten_registration_never_settled_witness:
  "settlements 0
     (run_ops [Resolve ''s1-cmd-1'' Allow None, Advance 300000, ClearAllForSession (Prefix ''s1'')]
        (snd (register ''s1-cmd-1''
           (run_ops [Register ''s1-cmd-2'', Advance 1000, Reject ''s1-cmd-2'' ''no'']
              (snd (register ''s1-cmd-1'' (new_ConfirmationQueue 300000)))))))
   = []"
proof -
  define q1 where "q1 = snd (register ''s1-cmd-1'' (new_ConfirmationQueue 300000))"
  define qm where "qm = run_ops [Register ''s1-cmd-2'', Advance 1000, Reject ''s1-cmd-2'' ''no''] q1"
  have a: "queue_ok (new_ConfirmationQueue 300000)" by (rule queue_ok_new)
  have b: "register ''s1-cmd-1'' (new_ConfirmationQueue 300000) = (0, q1)"
    by (simp add: q1_def prod_eq_iff register_fields new_ConfirmationQueue_def)
  have c: "\<forall>op \<in> set [Register ''s1-cmd-2'', Advance 1000, Reject ''s1-cmd-2'' ''no''].
             \<not> touches ''s1-cmd-1'' op" by simp
  have d: "elapsed [Register ''s1-cmd-2'', Advance 1000, Reject ''s1-cmd-2'' ''no'']
             < setTimeout_delay (approvalTimeoutMs (new_ConfirmationQueue 300000))"
    by (simp add: new_ConfirmationQueue_def setTimeout_delay_def TIMEOUT_MAX_def)
  have e: "register ''s1-cmd-1'' qm = (fst (register ''s1-cmd-1'' qm), snd (register ''s1-cmd-1'' qm))"
    by simp
  from overwritten_registration_never_settled [OF a b c d e [unfolded qm_def]]
  show ?thesis unfolding q1_def qm_def by blast
qed

section \<open>The stream transport\<close>

declare drain_prefixed.simps [simp del]

declare drain_lines.simps [simp del]

lemma append_chunk_simps [simp]:
  "buffer (append_chunk c r) = buffer r @ c" "readingLength (append_chunk c r) = readingLength r"
  "expectedLength (append_chunk c r) = expectedLength r"
  by (simp_all add: append_chunk_def)

lemma append_chunk_Nil [simp]: "append_chunk [] r = r"
  by (simp add: append_chunk_def)

lemma append_chunk_twice [simp]: "append_chunk c (append_chunk b r) = append_chunk (b @ c) r"
  by (simp add: append_chunk_def)

lemma then_drain_stop [simp]: "then_drain D c ([], None, r) = D (append_chunk c r)"
  by (simp add: then_drain_def split: prod.splits)

lemma then_drain_error [simp]: "then_drain D c (fs, Some err, r) = (fs, Some err, append_chunk c r)"
  by (simp add: then_drain_def)

lemma then_drain_Cons:
  "then_drain D c (case res of (fs, x) \<Rightarrow> (f # fs, x))
   = (case then_drain D c res of (fs, x) \<Rightarrow> (f # fs, x))"
  by (auto simp: then_drain_def split: prod.splits option.splits)

lemma readUInt32BE_append: "4 \<le> length b \<Longrightarrow> readUInt32BE (b @ c) = readUInt32BE b"
  by (simp add: readUInt32BE_def)

lemma afterHeader_more:
  "\<not> (readingLength r \<and> length (buffer r) < 4) \<Longrightarrow> afterHeader (append_chunk c r) = append_chunk c (afterHeader r)"
  by (auto simp: afterHeader_def append_chunk_def readUInt32BE_append)

lemma messageBuffer_more:
  "expectedLength r \<le> length (buffer r) \<Longrightarrow> messageBuffer (append_chunk c r) = messageBuffer r"
  by (simp add: messageBuffer_def)

lemma afterMessage_more:
  "expectedLength r \<le> length (buffer r) \<Longrightarrow> afterMessage (append_chunk c r) = append_chunk c (afterMessage r)"
  by (simp add: afterMessage_def append_chunk_def)

lemma afterHeader_waiting:
  "\<not> readingLength (afterHeader r)" "\<not> readingLength r \<Longrightarrow> afterHeader r = r"
  by (simp_all add: afterHeader_def)

lemma drain_prefixed_more:
  "drain_prefixed decode (append_chunk c r) = then_drain (drain_prefixed decode) c (drain_prefixed decode r)"
proof (induction decode r rule: drain_prefixed.induct)
  case (1 decode r)
  let ?D = "drain_prefixed decode"
  show ?case
  proof (cases "buffer r = [] \<or> (readingLength r \<and> length (buffer r) < 4)")
    case True
    then have "?D r = ([], None, r)" by (subst drain_prefixed.simps) auto
    then show ?thesis by simp
  next
    case False
    then have ne: "buffer r \<noteq> []" and ns: "\<not> (readingLength r \<and> length (buffer r) < 4)"
      by auto
    define r1 where "r1 = afterHeader r"
    have r1': "afterHeader (append_chunk c r) = append_chunk c r1"
      unfolding r1_def using ns by (rule afterHeader_more)
    have nrl: "\<not> readingLength r1" "afterHeader r1 = r1"
      by (simp_all add: r1_def afterHeader_waiting)
    have ne': "buffer (append_chunk c r) \<noteq> []"
      and ns': "\<not> (readingLength (append_chunk c r) \<and> length (buffer (append_chunk c r)) < 4)"
      using False by auto
    have unfold: "?D r = (if length (buffer r1) < expectedLength r1 then ([], None, r1)
        else case decode (messageBuffer r1) of
          Inl err \<Rightarrow> ([], Some err, afterMessage r1)
        | Inr frame \<Rightarrow> (case ?D (afterMessage r1) of (fs, e, r') \<Rightarrow> (frame # fs, e, r')))"
      unfolding r1_def by (subst drain_prefixed.simps) (simp add: ne ns)
    have unfold': "?D (append_chunk c r) =
       (if length (buffer (append_chunk c r1)) < expectedLength (append_chunk c r1) then ([], None, append_chunk c r1)
        else case decode (messageBuffer (append_chunk c r1)) of
          Inl err \<Rightarrow> ([], Some err, afterMessage (append_chunk c r1))
        | Inr frame \<Rightarrow> (case ?D (afterMessage (append_chunk c r1)) of (fs, e, r') \<Rightarrow> (frame # fs, e, r')))"
      by (subst drain_prefixed.simps) (simp only: ne' ns' r1' if_False)
    show ?thesis
    proof (cases "length (buffer r1) < expectedLength r1")
      case True
      have a: "?D r = ([], None, r1)" using True by (simp add: unfold)
      have "?D (append_chunk c r1) = ?D (append_chunk c r)"
      proof (cases "buffer (append_chunk c r1) = []")
        case empty: True
        with True have "length (buffer (append_chunk c r1)) < expectedLength (append_chunk c r1)" by simp
        then have "?D (append_chunk c r) = ([], None, append_chunk c r1)" by (simp add: unfold')
        moreover have "?D (append_chunk c r1) = ([], None, append_chunk c r1)"
          using empty by (subst drain_prefixed.simps) simp
        ultimately show ?thesis by simp
      next
        case False
        define x where "x = append_chunk c r1"
        have hx: "afterHeader x = x" "buffer x \<noteq> []" "\<not> readingLength x"
          using nrl False by (simp_all add: x_def afterHeader_waiting)
        have "?D x =
          (if length (buffer x) < expectedLength x then ([], None, x)
           else case decode (messageBuffer x) of
             Inl err \<Rightarrow> ([], Some err, afterMessage x)
           | Inr frame \<Rightarrow> (case ?D (afterMessage x) of (fs, e, r') \<Rightarrow> (frame # fs, e, r')))"
          by (subst drain_prefixed.simps, unfold hx(1)) (simp add: hx)
        with unfold' show ?thesis unfolding x_def by simp
      qed
      with a show ?thesis by simp
    next
      case enough: False
      then have le: "expectedLength r1 \<le> length (buffer r1)" by simp
      have a: "?D r = (case decode (messageBuffer r1) of
                  Inl err \<Rightarrow> ([], Some err, afterMessage r1)
                | Inr frame \<Rightarrow> (case ?D (afterMessage r1) of (fs, e, r3) \<Rightarrow> (frame # fs, e, r3)))"
        using enough by (simp add: unfold)
      have b: "?D (append_chunk c r) = (case decode (messageBuffer r1) of
                  Inl err \<Rightarrow> ([], Some err, append_chunk c (afterMessage r1))
                | Inr frame \<Rightarrow> (case ?D (append_chunk c (afterMessage r1)) of (fs, e, r3) \<Rightarrow> (frame # fs, e, r3)))"
        unfolding unfold' messageBuffer_more [OF le] afterMessage_more [OF le] using le by simp
      show ?thesis
      proof (cases "decode (messageBuffer r1)")
        case (Inl err)
        with a b show ?thesis by simp
      next
        case (Inr frame)
        have "?D (append_chunk c (afterMessage r1)) = then_drain ?D c (?D (afterMessage r1))"
          using ne ns enough Inr unfolding r1_def by (intro "1.IH") auto
        with a b Inr show ?thesis by (simp add: then_drain_Cons)
      qed
    qed
  qed
qed

lemma nextLine_more:
  "CHR 0x0A \<in> set (buffer r) \<Longrightarrow> nextLine (append_chunk c r) = nextLine r"
  by (simp add: nextLine_def takeWhile_append1)

lemma afterLine_more:
  assumes "CHR 0x0A \<in> set (buffer r)"
  shows "afterLine (append_chunk c r) = append_chunk c (afterLine r)"
proof -
  have "dropWhile (\<lambda>c. c \<noteq> CHR 0x0A) (buffer r) \<noteq> []"
    using assms by (simp add: dropWhile_eq_Nil_conv)
  moreover have "dropWhile (\<lambda>c. c \<noteq> CHR 0x0A) (buffer r @ c)
      = dropWhile (\<lambda>c. c \<noteq> CHR 0x0A) (buffer r) @ c"
    using assms by (simp add: dropWhile_append1)
  ultimately show ?thesis by (simp add: afterLine_def append_chunk_def)
qed

lemma drain_lines_more:
  "drain_lines decode (append_chunk c r) = then_drain (drain_lines decode) c (drain_lines decode r)"
proof (induction decode r rule: drain_lines.induct)
  case (1 decode r)
  let ?D = "drain_lines decode"
  show ?case
  proof (cases "CHR 0x0A \<in> set (buffer r)")
    case False
    then have "?D r = ([], None, r)" by (subst drain_lines.simps) simp
    then show ?thesis by simp
  next
    case True
    then have nl': "CHR 0x0A \<in> set (buffer (append_chunk c r))" by simp
    note eqs = nextLine_more [OF True, of c] afterLine_more [OF True, of c]
    show ?thesis
    proof (cases "blank (nextLine r)")
      case blank: True
      have "?D r = ?D (afterLine r)" using True blank by (subst drain_lines.simps) simp
      moreover have "?D (append_chunk c r) = ?D (append_chunk c (afterLine r))"
        using nl' blank by (subst drain_lines.simps) (simp add: eqs del: append_chunk_simps(1))
      moreover have "?D (append_chunk c (afterLine r)) = then_drain ?D c (?D (afterLine r))"
        using True blank by (intro "1.IH"(1)) auto
      ultimately show ?thesis by simp
    next
      case nb: False
      have a: "?D r = (case decode (nextLine r) of
          Inl err \<Rightarrow> ([], Some err, afterLine r)
        | Inr frame \<Rightarrow> (case ?D (afterLine r) of (fs, e, r') \<Rightarrow> (frame # fs, e, r')))"
        using True nb by (subst drain_lines.simps) simp
      have b: "?D (append_chunk c r) = (case decode (nextLine r) of
          Inl err \<Rightarrow> ([], Some err, append_chunk c (afterLine r))
        | Inr frame \<Rightarrow> (case ?D (append_chunk c (afterLine r)) of (fs, e, r') \<Rightarrow> (frame # fs, e, r')))"
        unfolding eqs [symmetric] using nl' nb
        by (subst drain_lines.simps) (simp add: eqs(1) del: append_chunk_simps(1))
      show ?thesis
      proof (cases "decode (nextLine r)")
        case (Inl err)
        with a b show ?thesis by simp
      next
        case (Inr frame)
        have "?D (append_chunk c (afterLine r)) = then_drain ?D c (?D (afterLine r))"
          using True nb Inr by (intro "1.IH"(2)) auto
        with a b Inr show ?thesis by (simp add: then_drain_Cons)
      qed
    qed
  qed
qed

text \<open>after draining, nothing append_chunk can be read without append_chunk bytes\<close>

lemma drain_prefixed_drained:
  "drain_prefixed decode r = (fs, None, r') \<Longrightarrow> drain_prefixed decode r' = ([], None, r')"
proof (induction decode r arbitrary: fs rule: drain_prefixed.induct)
  case (1 decode r)
  show ?case
  proof (cases "buffer r = [] \<or> (readingLength r \<and> length (buffer r) < 4)")
    case True
    then have "drain_prefixed decode r = ([], None, r)" by (subst drain_prefixed.simps) auto
    with "1.prems" show ?thesis by simp
  next
    case False
    then have ne: "buffer r \<noteq> []" and ns: "\<not> (readingLength r \<and> length (buffer r) < 4)"
      by auto
    show ?thesis
    proof (cases "length (buffer (afterHeader r)) < expectedLength (afterHeader r)")
      case True
      then have "drain_prefixed decode r = ([], None, afterHeader r)"
        by (subst drain_prefixed.simps) (simp add: ne ns)
      with "1.prems" have r': "r' = afterHeader r" by simp
      have "afterHeader (afterHeader r) = afterHeader r" by (simp add: afterHeader_waiting)
      then show ?thesis
        unfolding r' using True
        by (subst drain_prefixed.simps) (simp add: afterHeader_waiting)
    next
      case enough: False
      then have u: "drain_prefixed decode r = (case decode (messageBuffer (afterHeader r)) of
          Inl err \<Rightarrow> ([], Some err, afterMessage (afterHeader r))
        | Inr frame \<Rightarrow> (case drain_prefixed decode (afterMessage (afterHeader r)) of
               (fs, e, r') \<Rightarrow> (frame # fs, e, r')))"
        by (subst drain_prefixed.simps) (simp add: ne ns)
      show ?thesis
      proof (cases "decode (messageBuffer (afterHeader r))")
        case (Inl err)
        with u "1.prems" show ?thesis by simp
      next
        case (Inr frame)
        with u "1.prems" obtain fs' where
          "drain_prefixed decode (afterMessage (afterHeader r)) = (fs', None, r')"
          by (auto split: prod.splits)
        with ne ns enough Inr show ?thesis by (intro "1.IH") auto
      qed
    qed
  qed
qed

lemma drain_lines_drained:
  "drain_lines decode r = (fs, None, r') \<Longrightarrow> drain_lines decode r' = ([], None, r')"
proof (induction decode r arbitrary: fs rule: drain_lines.induct)
  case (1 decode r)
  show ?case
  proof (cases "CHR 0x0A \<in> set (buffer r)")
    case False
    then have "drain_lines decode r = ([], None, r)" by (subst drain_lines.simps) simp
    with "1.prems" show ?thesis by simp
  next
    case True
    show ?thesis
    proof (cases "blank (nextLine r)")
      case blank: True
      have "drain_lines decode r = drain_lines decode (afterLine r)"
        using True blank by (subst drain_lines.simps) simp
      with "1.prems" True blank show ?thesis by (intro "1.IH"(1)) auto
    next
      case nb: False
      have u: "drain_lines decode r = (case decode (nextLine r) of
          Inl err \<Rightarrow> ([], Some err, afterLine r)
        | Inr frame \<Rightarrow> (case drain_lines decode (afterLine r) of (fs, e, r') \<Rightarrow> (frame # fs, e, r')))"
        using True nb by (subst drain_lines.simps) simp
      show ?thesis
      proof (cases "decode (nextLine r)")
        case (Inl err)
        with u "1.prems" show ?thesis by simp
      next
        case (Inr frame)
        with u "1.prems" obtain fs' where
          "drain_lines decode (afterLine r) = (fs', None, r')"
          by (auto split: prod.splits)
        with True nb Inr show ?thesis by (intro "1.IH"(2)) auto
      qed
    qed
  qed
qed

lemma drain_more: "drain lp decode (append_chunk c r) = then_drain (drain lp decode) c (drain lp decode r)"
  by (cases lp) (simp_all add: drain_def [abs_def] drain_prefixed_more drain_lines_more)

lemma drain_drained: "drain lp decode r = (fs, None, r') \<Longrightarrow> drain lp decode r' = ([], None, r')"
  by (cases lp) (auto simp: drain_def dest: drain_prefixed_drained drain_lines_drained)

lemma read_chunks_Cons:
  "read_chunks lp decode r (chunk # chunks) =
     (case drain lp decode (append_chunk chunk r) of
        (fs, Some err, r') \<Rightarrow> (fs, Inl err)
      | (fs, None, r') \<Rightarrow> (case read_chunks lp decode r' chunks of (fs', x) \<Rightarrow> (fs @ fs', x)))"
  by (simp add: drain_def append_chunk_def)

lemma read_chunks_concat:
  "drain lp decode r = ([], None, r) \<Longrightarrow>
   read_chunks lp decode r chunks = read_chunks lp decode r [concat chunks]"
proof (induction chunks arbitrary: r)
  case Nil
  then show ?case by (simp add: read_chunks_Cons del: read_chunks.simps(2))
next
  case (Cons c cs)
  obtain fs e r2 where d: "drain lp decode (append_chunk c r) = (fs, e, r2)"
    by (cases "drain lp decode (append_chunk c r)") auto
  have whole: "drain lp decode (append_chunk (concat (c # cs)) r)
               = then_drain (drain lp decode) (concat cs) (fs, e, r2)"
    using drain_more [of lp decode "concat cs" "append_chunk c r"] d by simp
  show ?case
  proof (cases e)
    case (Some err)
    with d whole show ?thesis by (simp add: read_chunks_Cons del: read_chunks.simps(2))
  next
    case None
    with d have dr: "drain lp decode r2 = ([], None, r2)" by (auto dest: drain_drained)
    from Cons.IH [OF dr] have ih: "read_chunks lp decode r2 cs = read_chunks lp decode r2 [concat cs]" .
    obtain fs' e' r3 where d': "drain lp decode (append_chunk (concat cs) r2) = (fs', e', r3)"
      by (cases "drain lp decode (append_chunk (concat cs) r2)") auto
    from d None whole d' ih show ?thesis
      by (cases e') (simp_all add: read_chunks_Cons then_drain_def del: read_chunks.simps(2))
  qed
qed

lemma drain_new_reader: "drain lp decode new_reader = ([], None, new_reader)"
  by (cases lp) (simp_all add: drain_def new_reader_def drain_prefixed.simps drain_lines.simps)

text \<open>
  Claim C4. Feeding an inbound byte sequence to \<open>readFrames\<close> in chunks, cut at any byte
  boundaries (inside a length header, inside a payload, several frames in one chunk,
  empty chunks), yields the same frames in the same order, and the same way of
  returning, as feeding the whole sequence in one chunk, in both framings. This holds for
  every byte sequence and every decoder, so also for a concatenation of encoded frames.
\<close>

theorem readFrames_chunking:
  "readFrames useLengthPrefix decode chunks = readFrames useLengthPrefix decode [concat chunks]"
  using read_chunks_concat [OF drain_new_reader, of useLengthPrefix decode chunks]
  by (simp add: readFrames_def del: read_chunks.simps(2))

theorem readFrames_chunking_witness:
  \<open>readFrames True (decodeClientFrame lenient_checks)
     [[CHR 0x00, CHR 0x00], [CHR 0x00, CHR 0x22] @ ''{"type":"cancel",'',
      ''"sessionId":"s1"}'' @ [CHR 0x00, CHR 0x00, CHR 0x00, CHR 0x22] @ ''{"type":"cancel","sessionId":"s2"}''] =
   ([Cancel None ''s1'', Cancel None ''s2''], EndOfStream) \<and>
   readFrames False (decodeClientFrame lenient_checks)
     [''{"type":"cancel",'', ''"sessionId":"s1"}'' @ [CHR 0x0A] @ ''{"type":"cancel","sessionId":"s2"}'', [CHR 0x0A]] =
   ([Cancel None ''s1'', Cancel None ''s2''], EndOfStream)\<close>
proof -
  have 1: \<open>readFrames True (decodeClientFrame lenient_checks)
     [concat [[CHR 0x00, CHR 0x00], [CHR 0x00, CHR 0x22] @ ''{"type":"cancel",'',
      ''"sessionId":"s1"}'' @ [CHR 0x00, CHR 0x00, CHR 0x00, CHR 0x22] @ ''{"type":"cancel","sessionId":"s2"}'']] =
   ([Cancel None ''s1'', Cancel None ''s2''], EndOfStream)\<close>
    by code_simp
  have 2: \<open>readFrames False (decodeClientFrame lenient_checks)
     [concat [''{"type":"cancel",'', ''"sessionId":"s1"}'' @ [CHR 0x0A] @ ''{"type":"cancel","sessionId":"s2"}'', [CHR 0x0A]]] =
   ([Cancel None ''s1'', Cancel None ''s2''], EndOfStream)\<close>
    by code_simp
  show ?thesis
    using 1 2 by (simp only: readFrames_chunking [symmetric])
qed

section \<open>The agent wrapper\<close>

lemma aborted_onFrame [simp]: "aborted c (onFrame f w) = aborted c w"
  by (simp add: aborted_def onFrame_def)

lemma aborted_queue [simp]: "aborted c (w\<lparr>confirmationQueue := q\<rparr>) = aborted c w"
  by (simp add: aborted_def)

lemma aborted_cancelCurrentRun: "aborted c w \<Longrightarrow> aborted c (cancelCurrentRun why w)"
  by (simp add: cancelCurrentRun_def aborted_def onFrame_def split: option.splits)

lemma aborted_wrapper_step: "aborted c w \<Longrightarrow> aborted c (wrapper_step e w)"
proof (cases e)
  case (UserMessageBegins x)
  assume "aborted c w"
  then show ?thesis
    using aborted_cancelCurrentRun [of c w "''new_message_interrupt''"]
    by (simp add: UserMessageBegins handleUserMessage_begin_def Let_def aborted_def onFrame_def)
next
  case (ConfirmationSettled p cid s)
  assume "aborted c w"
  then show ?thesis
    by (simp add: ConfirmationSettled getCommandConfirmation_settled_def
        split: settlement.splits ConfirmationResult.splits)
next
  case (RunEnds c' r)
  assume "aborted c w"
  then show ?thesis
    by (simp add: RunEnds handleUserMessage_end_def Let_def aborted_def onFrame_def
        split: run_result.splits)
next
  case (CancelHandled u s)
  assume "aborted c w"
  then show ?thesis
    using aborted_cancelCurrentRun [of c w]
    by (simp add: CancelHandled handleCancel_def Let_def)
next
  case CleanedUp
  assume "aborted c w"
  then show ?thesis
    using aborted_cancelCurrentRun [of c w]
    by (simp add: CleanedUp cleanup_def Let_def)
next
  case (RunCancelled why)
  assume "aborted c w"
  then show ?thesis
    using aborted_cancelCurrentRun [of c w why] by (simp add: RunCancelled)
next
  case (ConfirmationAsked c' cmd p u)
  assume "aborted c w"
  then show ?thesis
    by (simp add: ConfirmationAsked onGetCommandConfirmation_def
        getCommandConfirmation_register_def Let_def)
qed (simp_all add: onItem_def onLoading_def onLastResponseId_def handleApprove_def
      aborted_def onFrame_def)

lemma aborted_wrapper_run: "aborted c w \<Longrightarrow> aborted c (wrapper_run events w)"
  unfolding wrapper_run_def
  by (induction events arbitrary: w) (simp_all add: aborted_wrapper_step)

lemma onItem_aborted: "aborted c w \<Longrightarrow> onItem c item now w = w"
  by (simp add: onItem_def)

lemma cancelCurrentRun_Some:
  "currentRunAbortController w = Some c \<Longrightarrow>
   cancelCurrentRun why w =
     w\<lparr>abortedControllers := c # abortedControllers w, currentRunAbortController := None,
       emitted := emitted w @ [Status None (''Agent run cancelled: '' @ why) None]\<rparr>"
  by (simp add: cancelCurrentRun_def onFrame_def)

text \<open>
  Claim C8. When \<open>cancelCurrentRun\<close> finds a run in flight, it emits the status frame
  \<open>Agent run cancelled: <reason>\<close> and sets the run's abort signal; from then on, whatever
  happens to the wrapper (further messages, callbacks, approvals, cancels, clean-up, queue
  operations), every \<open>onItem\<close> callback of that run leaves the wrapper as it is: no item
  frame of the aborted run is emitted.
\<close>

theorem cancelled_run_emits_no_items:
  assumes "currentRunAbortController w = Some controller"
  shows "emitted (cancelCurrentRun why w) =
           emitted w @ [Status None (''Agent run cancelled: '' @ why) None] \<and>
         aborted controller (cancelCurrentRun why w) \<and>
         (\<forall>events item now.
            wrapper_step (ItemArrives controller item now)
              (wrapper_run events (cancelCurrentRun why w)) =
            wrapper_run events (cancelCurrentRun why w))"
proof -
  have a: "aborted controller (cancelCurrentRun why w)"
    by (simp add: cancelCurrentRun_Some [OF assms] aborted_def)
  show ?thesis
    using a aborted_wrapper_run [OF a]
    by (simp add: cancelCurrentRun_Some [OF assms] onItem_aborted)
qed

theorem cancelled_run_emits_no_items_witness:
  "emitted
     (wrapper_run
        [RunCancelled ''client'', ItemArrives 0 (JObj [(''type'', JStr ''message'')]) 7,
         LoadingChanges 0 False, ItemArrives 0 JNull 8]
        (snd (handleUserMessage_begin False
                (new_AgentWrapper ''s1'' (new_ConfirmationQueue DEFAULT_APPROVAL_TIMEOUT_MS))))) =
   [Status None ''Agent processing... '' None, Status None ''Agent run cancelled: client'' None]"
proof -
  define w where "w = snd (handleUserMessage_begin False
                (new_AgentWrapper ''s1'' (new_ConfirmationQueue DEFAULT_APPROVAL_TIMEOUT_MS)))"
  have c: "currentRunAbortController w = Some 0"
    unfolding w_def by (simp add: handleUserMessage_begin_def new_AgentWrapper_def onFrame_def Let_def)
  have e: "emitted w = [Status None ''Agent processing... '' None]"
    unfolding w_def by (simp add: handleUserMessage_begin_def new_AgentWrapper_def onFrame_def Let_def)
  note t = cancelled_run_emits_no_items [OF c, of "''client''"]
  have 1: "emitted (cancelCurrentRun ''client'' w) =
      [Status None ''Agent processing... '' None, Status None ''Agent run cancelled: client'' None]"
    using t [THEN conjunct1] e by simp
  have 2: "\<And>item now. onItem 0 item now (cancelCurrentRun ''client'' w) = cancelCurrentRun ''client'' w"
    using t [THEN conjunct2, THEN conjunct2, rule_format, of _ _ "[]"]
    by (simp add: wrapper_run_def)
  have 3: "onLoading 0 False (cancelCurrentRun ''client'' w) = cancelCurrentRun ''client'' w"
    using t [THEN conjunct2, THEN conjunct1] by (simp add: onLoading_def)
  show ?thesis
    unfolding w_def [symmetric]
    by (simp add: wrapper_run_def 1 2 3)
qed

lemma run_ops_append: "run_ops (xs @ ys) q = run_ops ys (run_ops xs q)"
  by (simp add: run_ops_def)

lemma run_ops_Cons: "run_ops (x # xs) q = run_ops xs (apply_op x q)"
  by (simp add: run_ops_def)

lemma getCommandConfirmation_register_fields:
  "fst (getCommandConfirmation_register command applyPatch c w) = fst (register c (confirmationQueue w))"
  "confirmationQueue (snd (getCommandConfirmation_register command applyPatch c w)) =
     snd (register c (confirmationQueue w))"
  "emitted (snd (getCommandConfirmation_register command applyPatch c w)) =
     emitted w @ [CommandPrompt None c command applyPatch None]"
  by (simp_all add: getCommandConfirmation_register_def Let_def onFrame_def commandPromptToFrame_def)

text \<open>
  Claim C5, as stated: a registered command id that is neither resolved nor rejected
  before its deadline is rejected at the deadline and removed. It fails when the id is
  registered again before the deadline: the first promise is then not settled at its
  deadline, the wrapper emits nothing after the prompt and returns nothing to the engine,
  and the id is still pending after that deadline, where an approval settles the second
  registration to allow.
\<close>

theorem approval_timeout_counterexample:
  "(let r = getCommandConfirmation [Advance 200000, Register ''s1-cmd-A'', Advance 200000]
              [''rm'', ''-rf'', ''x''] None ''s1-cmd-A''
              (new_AgentWrapper ''s1'' (new_ConfirmationQueue DEFAULT_APPROVAL_TIMEOUT_MS))
    in fst r = None \<and>
       emitted (snd r) = [CommandPrompt None ''s1-cmd-A'' [''rm'', ''-rf'', ''x''] None None] \<and>
       clock (confirmationQueue (snd r)) = 400000 \<and>
       settled (confirmationQueue (snd r)) = [] \<and>
       pending (confirmationQueue (snd r)) = [(''s1-cmd-A'', \<lparr>promise = 1, timer = 1\<rparr>)] \<and>
       settled (snd (resolve ''s1-cmd-A'' Allow None (confirmationQueue (snd r)))) =
         [(1, Resolved (ConfirmationResult Allow None))])"
proof -
  define q0 where "q0 = new_ConfirmationQueue DEFAULT_APPROVAL_TIMEOUT_MS"
  define q1 where "q1 = snd (register ''s1-cmd-A'' q0)"
  define q2 where "q2 = advance 200000 q1"
  define q3 where "q3 = snd (register ''s1-cmd-A'' q2)"
  define q4 where "q4 = advance 200000 q3"
  have d: "setTimeout_delay 300000 = 300000"
    by (simp add: setTimeout_delay_def TIMEOUT_MAX_def)
  have 1: "q1 = \<lparr>pending = [(''s1-cmd-A'', \<lparr>promise = 0, timer = 0\<rparr>)], approvalTimeoutMs = 300000,
           clock = 0, timers = [(0, Timeout 300000 ''s1-cmd-A'' 0)], fresh = 1, settled = []\<rparr>"
    and p: "fst (register ''s1-cmd-A'' q0) = 0"
    by (simp_all add: q1_def q0_def new_ConfirmationQueue_def DEFAULT_APPROVAL_TIMEOUT_MS_def
        register_def Let_def d)
  have 2: "q2 = \<lparr>pending = [(''s1-cmd-A'', \<lparr>promise = 0, timer = 0\<rparr>)], approvalTimeoutMs = 300000,
           clock = 200000, timers = [(0, Timeout 300000 ''s1-cmd-A'' 0)], fresh = 1, settled = []\<rparr>"
    by (simp add: q2_def 1 advance_def Let_def)
  have 3: "q3 = \<lparr>pending = [(''s1-cmd-A'', \<lparr>promise = 1, timer = 1\<rparr>)], approvalTimeoutMs = 300000,
           clock = 200000, timers = [(1, Timeout 500000 ''s1-cmd-A'' 1)], fresh = 2, settled = []\<rparr>"
    by (simp add: q3_def 2 register_def Let_def d clearTimeout_def)
  have 4: "q4 = \<lparr>pending = [(''s1-cmd-A'', \<lparr>promise = 1, timer = 1\<rparr>)], approvalTimeoutMs = 300000,
           clock = 400000, timers = [(1, Timeout 500000 ''s1-cmd-A'' 1)], fresh = 2, settled = []\<rparr>"
    by (simp add: q4_def 3 advance_def Let_def)
  have ops: "run_ops [Advance 200000, Register ''s1-cmd-A'', Advance 200000] q1 = q4"
    by (simp add: run_ops_def q2_def q3_def q4_def)
  have s: "settlements 0 q4 = []" by (simp add: 4 settlements_def)
  have r: "getCommandConfirmation [Advance 200000, Register ''s1-cmd-A'', Advance 200000]
              [''rm'', ''-rf'', ''x''] None ''s1-cmd-A'' (new_AgentWrapper ''s1'' q0) =
      (None, (new_AgentWrapper ''s1'' q0)
         \<lparr>emitted := [CommandPrompt None ''s1-cmd-A'' [''rm'', ''-rf'', ''x''] None None],
          confirmationQueue := q4\<rparr>)"
    by (simp add: getCommandConfirmation_def getCommandConfirmation_register_def Let_def
      onFrame_def commandPromptToFrame_def new_AgentWrapper_def q1_def [symmetric] ops p s)
  show ?thesis
    unfolding q0_def [symmetric] r
    by (simp add: 4 resolve_def Let_def settle_def clearTimeout_def)
qed

text \<open>
  Claim C5, amended. The default timeout is five minutes, which is also the delay of
  the timer. A command id registered by \<open>getCommandConfirmation\<close> on which no operation
  resolves, rejects, re-registers or clears it before the deadline (the timer's delay
  after the registration) is not settled before the deadline; once the deadline has
  passed, its promise has been rejected exactly once, with the timeout error, whatever
  the queue is used for later, and the id is no longer pending; the wrapper then emits an
  error frame with code \<open>APPROVAL_TIMEOUT\<close> after the prompt and returns a denied review to
  the engine.
\<close>

theorem approval_timeout_denies:
  assumes "queue_ok (confirmationQueue w)"
    and "\<forall>op \<in> set ops. \<not> touches c op"
    and "elapsed ops < setTimeout_delay (approvalTimeoutMs (confirmationQueue w))"
    and "setTimeout_delay (approvalTimeoutMs (confirmationQueue w)) \<le> elapsed ops + ms"
  shows "DEFAULT_APPROVAL_TIMEOUT_MS = 300000 \<and>
         setTimeout_delay DEFAULT_APPROVAL_TIMEOUT_MS = 300000 \<and>
         fst (getCommandConfirmation ops command applyPatch c w) = None \<and>
         (\<forall>later.
            let r = getCommandConfirmation (ops @ Advance ms # later) command applyPatch c w
            in fst r = Some (CommandConfirmation Denied None
                               (Some (''Approval timed out or was cancelled: '' @ timeout_message c))) \<and>
               emitted (snd r) =
                 emitted w @
                 [CommandPrompt None c command applyPatch None,
                  Error None (''Approval timed out or failed for command '' @ c)
                    (Some ''APPROVAL_TIMEOUT'') None None] \<and>
               settlements (fst (register c (confirmationQueue w))) (confirmationQueue (snd r)) =
                 [Rejected (timeout_message c)] \<and>
               (later = [] \<longrightarrow> map_of (pending (confirmationQueue (snd r))) c = None))"
proof -
  define p where "p = fst (register c (confirmationQueue w))"
  define q1 where "q1 = snd (register c (confirmationQueue w))"
  have r: "register c (confirmationQueue w) = (p, q1)" by (simp add: p_def q1_def)
  note t = queue_timeout [OF assms(1) r assms(2) assms(3) assms(4)]
  have a: "fst (getCommandConfirmation ops command applyPatch c w) = None"
    using t [of "[]"]
    by (simp add: getCommandConfirmation_def Let_def getCommandConfirmation_register_fields
        p_def [symmetric] q1_def [symmetric])
  have b: "let r = getCommandConfirmation (ops @ Advance ms # later) command applyPatch c w
            in fst r = Some (CommandConfirmation Denied None
                               (Some (''Approval timed out or was cancelled: '' @ timeout_message c))) \<and>
               emitted (snd r) =
                 emitted w @
                 [CommandPrompt None c command applyPatch None,
                  Error None (''Approval timed out or failed for command '' @ c)
                    (Some ''APPROVAL_TIMEOUT'') None None] \<and>
               settlements (fst (register c (confirmationQueue w))) (confirmationQueue (snd r)) =
                 [Rejected (timeout_message c)] \<and>
               (later = [] \<longrightarrow> map_of (pending (confirmationQueue (snd r))) c = None)" for later
    using t [of later] t [of "[]"]
    by (auto simp add: getCommandConfirmation_def Let_def getCommandConfirmation_register_fields
        p_def [symmetric] q1_def [symmetric] run_ops_append run_ops_Cons
        getCommandConfirmation_settled_def onFrame_def run_ops_def)
  show ?thesis
    using a b by (simp add: DEFAULT_APPROVAL_TIMEOUT_MS_def setTimeout_delay_def TIMEOUT_MAX_def)
qed

theorem approval_timeout_denies_witness:
  "(let r = getCommandConfirmation
              [Advance 200000, Resolve ''s2-cmd-B'' Allow None, Advance 100000] [''rm'', ''-rf'', ''x'']
              None ''s1-cmd-A''
              (new_AgentWrapper ''s1'' (new_ConfirmationQueue DEFAULT_APPROVAL_TIMEOUT_MS))
    in fst r = Some (CommandConfirmation Denied None
                       (Some ''Approval timed out or was cancelled: Confirmation for command s1-cmd-A timed out.'')) \<and>
       emitted (snd r) =
         [CommandPrompt None ''s1-cmd-A'' [''rm'', ''-rf'', ''x''] None None,
          Error None ''Approval timed out or failed for command s1-cmd-A''
            (Some ''APPROVAL_TIMEOUT'') None None] \<and>
       map_of (pending (confirmationQueue (snd r))) ''s1-cmd-A'' = None)"
proof -
  define w where "w = new_AgentWrapper ''s1'' (new_ConfirmationQueue DEFAULT_APPROVAL_TIMEOUT_MS)"
  have q: "confirmationQueue w = new_ConfirmationQueue DEFAULT_APPROVAL_TIMEOUT_MS" and e: "emitted w = []"
    by (simp_all add: w_def new_AgentWrapper_def)
  have ok: "queue_ok (confirmationQueue w)"
    unfolding q by (rule queue_ok_new)
  have ms: "setTimeout_delay (approvalTimeoutMs (confirmationQueue w)) = 300000"
    by (simp add: q new_ConfirmationQueue_def DEFAULT_APPROVAL_TIMEOUT_MS_def setTimeout_delay_def
        TIMEOUT_MAX_def)
  have h2: "\<forall>op \<in> set [Advance 200000, Resolve ''s2-cmd-B'' Allow None]. \<not> touches ''s1-cmd-A'' op"
    by simp
  have h3: "elapsed [Advance 200000, Resolve ''s2-cmd-B'' Allow None]
      < setTimeout_delay (approvalTimeoutMs (confirmationQueue w))"
    by (simp add: ms)
  have h4: "setTimeout_delay (approvalTimeoutMs (confirmationQueue w))
      \<le> elapsed [Advance 200000, Resolve ''s2-cmd-B'' Allow None] + 100000"
    by (simp add: ms)
  note t = approval_timeout_denies [OF ok h2 h3 h4, of "[''rm'', ''-rf'', ''x'']" None,
      THEN conjunct2, THEN conjunct2, THEN conjunct2, rule_format, of "[]"]
  show ?thesis
    unfolding w_def [symmetric] using t by (simp add: Let_def e timeout_message_def)
qed

lemma reject_None: "map_of (pending q) c = None \<Longrightarrow> reject c why q = (False, q)"
  by (simp add: reject_def)

text \<open>
  Claim C2. \<open>handleCancel\<close> rejects the command id made of the frame's session id and a
  newly drawn UUID. When that id is not pending, the queue is left as it was: no pending
  confirmation of the session is rejected or removed.
\<close>

theorem handleCancel_rejects_nothing:
  assumes "map_of (pending (confirmationQueue w)) (frameSessionId @ ''-cmd-'' @ randomUUID) = None"
  shows "confirmationQueue (handleCancel randomUUID frameSessionId w) = confirmationQueue w"
  using assms
  by (simp add: handleCancel_def Let_def cancelCurrentRun_def onFrame_def reject_None
      split: option.splits)

theorem handleCancel_rejects_nothing_witness:
  "confirmationQueue (handleCancel ''B'' ''s1'' wrapper_awaiting_approval) =
   confirmationQueue wrapper_awaiting_approval"
proof -
  have "map_of (pending (confirmationQueue wrapper_awaiting_approval)) (''s1'' @ ''-cmd-'' @ ''B'') = None"
    by (simp add: wrapper_awaiting_approval_def onGetCommandConfirmation_def
      handleUserMessage_begin_def new_AgentWrapper_def new_ConfirmationQueue_def aborted_def
      onFrame_def getCommandConfirmation_register_def commandPromptToFrame_def register_def
      Let_def)
  then show ?thesis by (rule handleCancel_rejects_nothing)
qed

text \<open>
  Claim C2, on an example. A run of session \<open>s1\<close> is waiting for the confirmation of
  \<open>s1-cmd-A\<close>. \<open>handleCancel\<close> for \<open>s1\<close> aborts the run, but the entry stays pending and its
  promise unsettled; \<open>cleanup\<close>, which calls \<open>clearAllForSession\<close>, rejects and removes it.
\<close>

theorem handleCancel_counterexample:
  "currentRunAbortController wrapper_awaiting_approval = Some 0 \<and>
   pending (confirmationQueue wrapper_awaiting_approval) =
     [(''s1-cmd-A'', \<lparr>promise = 0, timer = 0\<rparr>)] \<and>
   aborted 0 (handleCancel ''B'' ''s1'' wrapper_awaiting_approval) \<and>
   pending (confirmationQueue (handleCancel ''B'' ''s1'' wrapper_awaiting_approval)) =
     [(''s1-cmd-A'', \<lparr>promise = 0, timer = 0\<rparr>)] \<and>
   settlements 0 (confirmationQueue (handleCancel ''B'' ''s1'' wrapper_awaiting_approval)) = [] \<and>
   pending (confirmationQueue (cleanup wrapper_awaiting_approval)) = [] \<and>
   settlements 0 (confirmationQueue (cleanup wrapper_awaiting_approval)) =
     [Rejected ''Session ended while awaiting confirmation for s1-cmd-A.'']"
  by (simp add: wrapper_awaiting_approval_def onGetCommandConfirmation_def
      handleUserMessage_begin_def new_AgentWrapper_def new_ConfirmationQueue_def aborted_def
      onFrame_def getCommandConfirmation_register_def commandPromptToFrame_def register_def
      Let_def handleCancel_def cancelCurrentRun_def reject_def cleanup_def
      clearAllForSession_def clearEntry_def clearTimeout_def settle_def settlements_def
      session_ended_message_def)

section \<open>The stream handler\<close>

lemma writeFrame_throws:
  "\<not> destroyed st \<Longrightarrow> \<not> closed st \<Longrightarrow> getHeader res = None \<Longrightarrow>
   writeFrame R st frame res = Inl TypeError"
  by (simp add: writeFrame_def)

lemma write_frame_throws:
  "\<not> destroyed (stream h) \<Longrightarrow> \<not> closed (stream h) \<Longrightarrow> getHeader (session (stream h)) = None \<Longrightarrow>
   write_frame R frame h = (Some TypeError, h)"
  by (simp add: write_frame_def writeFrame_throws)

lemma stream_end_flags:
  "destroyed (stream_end R x st) = destroyed st"
  "session (stream_end R x st) = session st"
  "sent (stream_end R None st) = sent st"
  by (simp_all add: stream_end_def stream_write_def split: option.splits)

lemma finally_throws:
  assumes "\<not> destroyed (stream h)" and "getHeader (session (stream h)) = None"
  shows "finally_clause R (Some TypeError, h) = (Rejects TypeError, h)"
  using assms by (simp add: finally_clause_def write_frame_throws)

text \<open>
  Claim C1. On a stream that is neither destroyed nor closed and whose session has
  neither \<open>headers\<close> nor \<open>getHeader\<close>, as the sessions of Node have, the handler on the
  agent's route reads no frame: \<open>readFrames\<close> throws a \<open>TypeError\<close>; in the \<open>catch\<close> clause
  \<open>writeFrame\<close> throws again and the stream is ended; in the \<open>finally\<close> clause, where the
  stream does not read closed yet, the \<open>writeFrame\<close> of the terminate frame throws too. The
  handler's promise is rejected and nothing has been sent, whatever the client sends: in
  no lifecycle is a terminate frame written.
\<close>

theorem handler_sends_nothing:
  assumes "headers (session st) = None" and "getHeader (session st) = None"
    and "\<not> destroyed st" and "\<not> closed st"
  shows "handleAgentStream R q env st ''/agent/stream'' ''POST'' chunks =
           (Rejects TypeError,
            \<lparr>stream = stream_end R None st, agentWrapper = None, currentSessionId = None\<rparr>) \<and>
         sent (stream_end R None st) = sent st"
proof -
  define h0 where "h0 = \<lparr>stream = st, agentWrapper = None, currentSessionId = None\<rparr>"
  have c: "outer_catch R TypeError h0 = (Some TypeError, end_stream R h0)"
    using assms by (simp add: outer_catch_def write_error_def write_frame_throws h0_def)
  have f: "finally_clause R (Some TypeError, end_stream R h0) = (Rejects TypeError, end_stream R h0)"
    using assms by (intro finally_throws) (simp_all add: end_stream_def h0_def stream_end_flags)
  have "handleAgentStream R q env st ''/agent/stream'' ''POST'' chunks =
      (Rejects TypeError, end_stream R h0)"
    using assms(1)
    by (simp add: handleAgentStream_def readFrames_request_def try_statement_def
        h0_def [symmetric] c f)
  then show ?thesis
    by (simp add: end_stream_def h0_def stream_end_flags)
qed

theorem handler_sends_nothing_witness:
  "handleAgentStream (example_runtime True) (new_ConfirmationQueue DEFAULT_APPROVAL_TIMEOUT_MS)
     example_env new_stream ''/agent/stream'' ''POST'' [] =
   (Rejects TypeError,
    \<lparr>stream = \<lparr>destroyed = False, closed = True, writableEnded = True, sent = [],
                session = ServerHttp2Session\<rparr>,
     agentWrapper = None, currentSessionId = None\<rparr>)"
proof -
  have s: "headers (session new_stream) = None" "getHeader (session new_stream) = None"
    "\<not> destroyed new_stream" "\<not> closed new_stream"
    by (simp_all add: new_stream_def ServerHttp2Session_def)
  from handler_sends_nothing [OF s, THEN conjunct1] show ?thesis
    by (simp add: stream_end_def new_stream_def example_runtime_def)
qed

text \<open>
  Claim C1, on an example. The client sends one user message with a session id and ends
  its side. The handler's promise is rejected, the stream is ended and nothing has been
  sent on it: no status frame, no item frame, no terminate frame.
\<close>

theorem terminate_frame_counterexample:
  \<open>handleAgentStream (example_runtime False) (new_ConfirmationQueue DEFAULT_APPROVAL_TIMEOUT_MS)
     example_env new_stream ''/agent/stream'' ''POST''
     [''{"type":"user_message","sessionId":"s1","content":"fix the build"}'' @ [CHR 0x0A]] =
   (Rejects TypeError,
    \<lparr>stream = \<lparr>destroyed = False, closed = False, writableEnded = True, sent = [],
                session = ServerHttp2Session\<rparr>,
     agentWrapper = None, currentSessionId = None\<rparr>)\<close>
  by (simp add: handleAgentStream_def readFrames_request_def try_statement_def outer_catch_def
      finally_clause_def write_error_def write_frame_def writeFrame_def end_stream_def
      stream_end_def new_stream_def ServerHttp2Session_def example_runtime_def)







lemma sessionId_onFrame [simp]: "sessionId (onFrame f w) = sessionId w"
  by (simp add: onFrame_def)

lemma sessionId_cancelCurrentRun [simp]: "sessionId (cancelCurrentRun why w) = sessionId w"
  by (simp add: cancelCurrentRun_def split: option.splits)

lemma sessionId_begin [simp]: "sessionId (snd (handleUserMessage_begin b w)) = sessionId w"
  by (simp add: handleUserMessage_begin_def Let_def)

lemma sessionId_getCommandConfirmation [simp]:
  "sessionId (snd (getCommandConfirmation ops cmd p c w)) = sessionId w"
  by (simp add: getCommandConfirmation_def getCommandConfirmation_register_def
      getCommandConfirmation_settled_def Let_def
      split: list.splits settlement.splits ConfirmationResult.splits)

lemma sessionId_engine_calls: "sessionId (snd (engine_calls c cs w)) = sessionId w"
proof (induction c cs w rule: engine_calls.induct)
  case (5 controller command applyPatch randomUUID meanwhile cs w)
  show ?case
  proof (cases "aborted controller w")
    case True
    with 5 show ?thesis by simp
  next
    case False
    obtain r w1 where g: "getCommandConfirmation meanwhile command applyPatch
               (sessionId w @ ''-cmd-'' @ randomUUID) w = (r, w1)"
      by (cases "getCommandConfirmation meanwhile command applyPatch
               (sessionId w @ ''-cmd-'' @ randomUUID) w")
    have "w1 = snd (getCommandConfirmation meanwhile command applyPatch
               (sessionId w @ ''-cmd-'' @ randomUUID) w)" by (simp only: g snd_conv)
    then have s1: "sessionId w1 = sessionId w"
      by (simp only: sessionId_getCommandConfirmation)
    show ?thesis
    proof (cases r)
      case None
      with False g s1 show ?thesis by simp
    next
      case (Some a)
      with False g s1 5(2) [OF False g [symmetric, unfolded Some]] show ?thesis by simp
    qed
  qed
qed (simp_all add: onItem_def onLoading_def onLastResponseId_def)

lemma sessionId_end [simp]: "sessionId (handleUserMessage_end c r w) = sessionId w"
  by (simp add: handleUserMessage_end_def Let_def split: run_result.splits)

lemma sessionId_handleUserMessage: "sessionId (snd (handleUserMessage run w)) = sessionId w"
proof -
  obtain c w1 where b: "handleUserMessage_begin (importFails run) w = (c, w1)"
    by (cases "handleUserMessage_begin (importFails run) w")
  have "w1 = snd (handleUserMessage_begin (importFails run) w)" by (simp only: b snd_conv)
  then have s1: "sessionId w1 = sessionId w" by (simp only: sessionId_begin)
  show ?thesis
  proof (cases c)
    case None
    with b s1 show ?thesis by (simp add: handleUserMessage_def)
  next
    case (Some controller)
    obtain f w2 where e: "engine_calls controller (calls run) w1 = (f, w2)"
      by (cases "engine_calls controller (calls run) w1")
    have "w2 = snd (engine_calls controller (calls run) w1)" by (simp only: e snd_conv)
    then have "sessionId w2 = sessionId w" by (simp only: sessionId_engine_calls s1)
    with b Some e show ?thesis by (cases f) (simp_all add: handleUserMessage_def)
  qed
qed

lemma sessionId_thrown [simp]: "sessionId (handleUserMessage_thrown run w) = sessionId w"
  by (simp add: handleUserMessage_thrown_def cancelCurrentRun_thrown_def split: option.splits)

lemma forward_rebinds:
  "map_option sessionId (agentWrapper (snd (forward R E w h))) = Some (sessionId w) \<and>
   currentSessionId (snd (forward R E w h)) = currentSessionId h"
proof (cases "onFrame_throws h")
  case True
  then show ?thesis by (simp add: forward_def)
next
  case False
  obtain f w' where r: "handleUserMessage (engine E) w = (f, w')"
    by (cases "handleUserMessage (engine E) w")
  have "w' = snd (handleUserMessage (engine E) w)" by (simp only: r snd_conv)
  then have "sessionId w' = sessionId w" by (simp only: sessionId_handleUserMessage)
  with False r show ?thesis by (simp add: forward_def deliver_def)
qed

text \<open>
  The session id that approve and cancel frames are checked against is the one of the
  latest user message: on a stream with a wrapper, a user message with another session id
  changes it, while the wrapper stays that of the first session; an approve frame that
  carries the new id is then handed to the wrapper of the first session.
\<close>

theorem frames_checked_against_latest_session_id:
  assumes "agentWrapper h = Some w" and "s \<noteq> []"
  shows "currentSessionId
           (snd (dispatch R q E (UserMessage i (Some s) content imagePaths configOverrides) h)) = Some s \<and>
         map_option sessionId
           (agentWrapper
              (snd (dispatch R q E (UserMessage i (Some s) content imagePaths configOverrides) h))) =
           Some (sessionId w) \<and>
         (\<forall>h'. agentWrapper h' = Some w \<and> currentSessionId h' = Some s \<longrightarrow>
            dispatch R q E (Approve j s commandId d e) h' =
              (Continue, deliver R (handleApprove commandId d e w) h'))"
  using assms forward_rebinds [of R E w "h\<lparr>currentSessionId := Some s\<rparr>"]
  by (simp add: dispatch_def)

end
